theory Spec2Isabelle
  imports Complex_Main "HOL-Library.Char_ord"
begin

section \<open>Errors and fallible comprehensions\<close>

text \<open>
  The exceptions the program can raise, as values. \<open>KeyError\<close> is a failed dictionary
  lookup, \<open>IndexError\<close> an index outside a tensor or an embedding table, and
  \<open>ShapeError\<close> stands for the run-time errors of tensor operations whose operand shapes
  do not fit (a mask that cannot be broadcast, a \<open>view\<close> to another number of elements).
  \<open>RuntimeError\<close> is any other run-time error of the tensor library: a \<open>view\<close> that the
  strides of the tensor do not allow, a draw from an invalid probability vector.
\<close>

datatype py_error = KeyError | IndexError | ShapeError | RuntimeError

type_synonym 'a result = "py_error + 'a"

text \<open>A list comprehension whose body may raise: it stops at the first raise.\<close>

fun mapM :: "('a \<Rightarrow> 'b result) \<Rightarrow> 'a list \<Rightarrow> 'b list result" where
  "mapM f [] = Inr []"
| "mapM f (x # xs) =
     (case f x of
        Inl e \<Rightarrow> Inl e
      | Inr y \<Rightarrow> (case mapM f xs of Inl e \<Rightarrow> Inl e | Inr ys \<Rightarrow> Inr (y # ys)))"

definition getitem :: "('k \<rightharpoonup> 'v) \<Rightarrow> 'k \<Rightarrow> 'v result" where
  "getitem d k = (case d k of None \<Rightarrow> Inl KeyError | Some v \<Rightarrow> Inr v)"

text \<open>A dictionary comprehension stores its pairs in order; a later pair overwrites an
  earlier one with the same key.\<close>

fun dict_comp :: "('k \<times> 'v) list \<Rightarrow> ('k \<rightharpoonup> 'v) \<Rightarrow> ('k \<rightharpoonup> 'v)" where
  "dict_comp [] d = d"
| "dict_comp ((k, v) # kvs) d = dict_comp kvs (d(k \<mapsto> v))"

section \<open>Vocabulary codec\<close>

text \<open>
  \<open>characters = sorted(list(set(text)))\<close>: the distinct characters of the training
  text in increasing order. The training text (\<open>corpus\<close>) is a parameter of every
  definition that the source derives from the global \<open>text\<close>. A character is any
  linearly ordered type: \<open>char\<close>, or \<open>nat\<close> for a Unicode code point.
\<close>

definition characters :: "'c::linorder list \<Rightarrow> 'c list" where
  "characters corpus = sort (remdups corpus)"

definition vocab_size :: "'c::linorder list \<Rightarrow> nat" where
  "vocab_size corpus = length (characters corpus)"

text \<open>\<open>s_to_i = {ch:i for i,ch in enumerate(characters)}\<close> and
  \<open>i_to_s = {i:ch for i,ch in enumerate(characters)}\<close>.\<close>

definition s_to_i :: "'c::linorder list \<Rightarrow> ('c \<rightharpoonup> int)" where
  "s_to_i corpus =
     dict_comp (map (\<lambda>(i, ch). (ch, int i)) (enumerate 0 (characters corpus))) Map.empty"

definition i_to_s :: "'c::linorder list \<Rightarrow> (int \<rightharpoonup> 'c)" where
  "i_to_s corpus =
     dict_comp (map (\<lambda>(i, ch). (int i, ch)) (enumerate 0 (characters corpus))) Map.empty"

text \<open>\<open>encode = lambda s: [s_to_i[c] for c in s]\<close>\<close>

definition encode :: "'c::linorder list \<Rightarrow> 'c list \<Rightarrow> int list result" where
  "encode corpus s = mapM (getitem (s_to_i corpus)) s"

text \<open>\<open>decode = lambda n : ''.join([i_to_s[i] for i in n])\<close>; the join of
  one-character strings is the list of those characters.\<close>

definition decode :: "'c::linorder list \<Rightarrow> int list \<Rightarrow> 'c list result" where
  "decode corpus n = mapM (getitem (i_to_s corpus)) n"

section \<open>Floating-point numbers\<close>

text \<open>
  A tensor element is a finite number, an infinity or NaN. The result of an arithmetic
  operation on finite numbers is exact while it lies in the range of \<open>float32\<close> and is an
  infinity beyond it; the special values follow IEEE 754 (\<open>inf - inf\<close>, \<open>0 * inf\<close>, \<open>0 / 0\<close>
  and \<open>inf / inf\<close> are NaN, and NaN propagates). Rounding inside the range, signed zeros
  and subnormal numbers are not modelled, and a sum is accumulated from left to right.
\<close>

datatype fl = Fin real | PInf | NInf | NaN

definition max_float :: real where
  "max_float = 340282346638528859811704183484516925440"

definition rnd :: "real \<Rightarrow> fl" where
  "rnd r = (if max_float < r then PInf else if r < - max_float then NInf else Fin r)"

fun is_fin :: "fl \<Rightarrow> bool" where
  "is_fin (Fin a) = True"
| "is_fin _ = False"

fun fneg :: "fl \<Rightarrow> fl" where
  "fneg (Fin a) = Fin (- a)"
| "fneg PInf = NInf"
| "fneg NInf = PInf"
| "fneg NaN = NaN"

fun fadd :: "fl \<Rightarrow> fl \<Rightarrow> fl" where
  "fadd NaN y = NaN"
| "fadd x NaN = NaN"
| "fadd PInf NInf = NaN"
| "fadd NInf PInf = NaN"
| "fadd PInf y = PInf"
| "fadd x PInf = PInf"
| "fadd NInf y = NInf"
| "fadd x NInf = NInf"
| "fadd (Fin a) (Fin b) = rnd (a + b)"

definition fsub :: "fl \<Rightarrow> fl \<Rightarrow> fl" where
  "fsub x y = fadd x (fneg y)"

fun fmul :: "fl \<Rightarrow> fl \<Rightarrow> fl" where
  "fmul NaN y = NaN"
| "fmul x NaN = NaN"
| "fmul (Fin a) (Fin b) = rnd (a * b)"
| "fmul PInf (Fin b) = (if b = 0 then NaN else if 0 < b then PInf else NInf)"
| "fmul NInf (Fin b) = (if b = 0 then NaN else if 0 < b then NInf else PInf)"
| "fmul (Fin a) PInf = (if a = 0 then NaN else if 0 < a then PInf else NInf)"
| "fmul (Fin a) NInf = (if a = 0 then NaN else if 0 < a then NInf else PInf)"
| "fmul PInf PInf = PInf"
| "fmul NInf NInf = PInf"
| "fmul PInf NInf = NInf"
| "fmul NInf PInf = NInf"

fun fdiv :: "fl \<Rightarrow> fl \<Rightarrow> fl" where
  "fdiv NaN y = NaN"
| "fdiv x NaN = NaN"
| "fdiv (Fin a) (Fin b) =
     (if b = 0 then (if a = 0 then NaN else if 0 < a then PInf else NInf) else rnd (a / b))"
| "fdiv (Fin a) y = Fin 0"
| "fdiv PInf (Fin b) = (if 0 \<le> b then PInf else NInf)"
| "fdiv NInf (Fin b) = (if 0 \<le> b then NInf else PInf)"
| "fdiv x y = NaN"

fun fexp :: "fl \<Rightarrow> fl" where
  "fexp (Fin a) = rnd (exp a)"
| "fexp PInf = PInf"
| "fexp NInf = Fin 0"
| "fexp NaN = NaN"

fun fln :: "fl \<Rightarrow> fl" where
  "fln (Fin a) = (if 0 < a then rnd (ln a) else if a = 0 then NInf else NaN)"
| "fln PInf = PInf"
| "fln x = NaN"

fun fsqrt :: "fl \<Rightarrow> fl" where
  "fsqrt (Fin a) = (if 0 \<le> a then Fin (sqrt a) else NaN)"
| "fsqrt PInf = PInf"
| "fsqrt x = NaN"

fun fmax :: "fl \<Rightarrow> fl \<Rightarrow> fl" where
  "fmax NaN y = NaN"
| "fmax x NaN = NaN"
| "fmax PInf y = PInf"
| "fmax x PInf = PInf"
| "fmax NInf y = y"
| "fmax x NInf = x"
| "fmax (Fin a) (Fin b) = Fin (max a b)"

definition fsum :: "fl list \<Rightarrow> fl" where
  "fsum xs = foldl fadd (Fin 0) xs"

section \<open>Tensors and layers\<close>

text \<open>
  The operations of the tensor library (\<open>nn.Linear\<close>, \<open>nn.LayerNorm\<close>, \<open>nn.Embedding\<close>,
  \<open>F.softmax\<close>, \<open>F.cross_entropy\<close>, \<open>torch.cat\<close>, \<open>masked_fill\<close>, \<open>view\<close>,
  \<open>torch.multinomial\<close>) are modelled from their documented behaviour, with the errors they
  raise as results.
  A vector is a list and a matrix of shape \<open>(T, C)\<close> the list of its \<open>T\<close> rows. Every torch
  operation of the model acts on each element of the batch on its own, so the layers are
  written for one sequence and the language model maps them over the batch. The
  hyperparameters are the source's globals; \<open>dropout = 0.0\<close> makes every \<open>nn.Dropout\<close> the
  identity in training and in evaluation mode, and it is left out.
\<close>

type_synonym vec = "fl list"
type_synonym mat = "vec list"

definition blocksize :: nat where "blocksize = 32"
definition n_embd :: nat where "n_embd = 64"
definition n_head :: nat where "n_head = 4"
definition n_layer :: nat where "n_layer = 4"

definition ncols :: "'a list list \<Rightarrow> nat" where
  "ncols x = (case x of [] \<Rightarrow> 0 | r # _ \<Rightarrow> length r)"

definition dot :: "vec \<Rightarrow> vec \<Rightarrow> fl" where
  "dot u v = fsum (map2 fmul u v)"

definition vadd :: "vec \<Rightarrow> vec \<Rightarrow> vec" where
  "vadd u v = map2 fadd u v"

definition madd :: "mat \<Rightarrow> mat \<Rightarrow> mat" where
  "madd x y = map2 vadd x y"

text \<open>\<open>a @ b\<close> on matrices, and \<open>a @ b.transpose(-2, -1)\<close>, whose entry \<open>(i, j)\<close> is the
  dot product of row \<open>i\<close> of \<open>a\<close> and row \<open>j\<close> of \<open>b\<close>.\<close>

definition matmul :: "mat \<Rightarrow> mat \<Rightarrow> mat" where
  "matmul a b = map (\<lambda>u. map (\<lambda>c. dot u (map (\<lambda>r. r ! c) b)) [0..<ncols b]) a"

definition matmul_t :: "mat \<Rightarrow> mat \<Rightarrow> mat" where
  "matmul_t a b = map (\<lambda>u. map (dot u) b) a"

definition mscale :: "mat \<Rightarrow> fl \<Rightarrow> mat" where
  "mscale a s = map (map (\<lambda>e. fmul e s)) a"

text \<open>\<open>nn.Linear\<close>: \<open>x @ weight.T + bias\<close>, the weight of shape (out, in).\<close>

record linear =
  lin_weight :: mat
  lin_bias :: vec

definition linear_nb :: "mat \<Rightarrow> vec \<Rightarrow> vec" where
  "linear_nb W x = map (dot x) W"

definition linear_fw :: "linear \<Rightarrow> vec \<Rightarrow> vec" where
  "linear_fw l x = vadd (linear_nb (lin_weight l) x) (lin_bias l)"

text \<open>\<open>nn.LayerNorm(n_embd)\<close>: over the last axis, with the biased variance and
  \<open>eps = 1e-5\<close>.\<close>

record layernorm =
  ln_weight :: vec
  ln_bias :: vec

definition mean :: "vec \<Rightarrow> fl" where
  "mean v = fdiv (fsum v) (Fin (real (length v)))"

definition var :: "vec \<Rightarrow> fl" where
  "var v = mean (map (\<lambda>a. fmul (fsub a (mean v)) (fsub a (mean v))) v)"

definition layer_norm :: "layernorm \<Rightarrow> vec \<Rightarrow> vec" where
  "layer_norm p v =
     vadd (map2 fmul
             (map (\<lambda>a. fdiv (fsub a (mean v)) (fsqrt (fadd (var v) (Fin (1 / 100000))))) v)
             (ln_weight p))
       (ln_bias p)"

text \<open>\<open>F.softmax\<close> along the last axis: the exponentials of the entries less their
  maximum, divided by their sum. A row with \<open>inf\<close> or NaN, or of \<open>-inf\<close> only, gives NaN.\<close>

definition softmax :: "vec \<Rightarrow> vec" where
  "softmax r =
     (let M = foldl fmax NInf r;
          e = map (\<lambda>x. fexp (fsub x M)) r;
          S = fsum e
      in map (\<lambda>a. fdiv a S) e)"

subsection \<open>One head of self-attention\<close>

text \<open>\<open>torch.tril(torch.ones(blocksize, blocksize))\<close>\<close>

definition tril :: mat where
  "tril = map (\<lambda>i. map (\<lambda>j. if j \<le> i then Fin 1 else Fin 0) [0..<blocksize]) [0..<blocksize]"

text \<open>\<open>w.masked_fill(mask, float('-inf'))\<close>. The mask must broadcast to the shape of
  \<open>w\<close>; the sliced \<open>tril\<close> has as many rows as columns, \<open>min T blocksize\<close>, which fits
  a \<open>(T, T)\<close> matrix only when it is \<open>T\<close>.\<close>

definition masked_fill :: "mat \<Rightarrow> bool list list \<Rightarrow> mat result" where
  "masked_fill w msk =
     (if length msk = length w \<and> list_all2 (\<lambda>r m. length r = length m) w msk
      then Inr (map2 (map2 (\<lambda>a m. if m then NInf else a)) w msk)
      else Inl ShapeError)"

record head =
  head_key :: mat
  head_query :: mat
  head_value :: mat

text \<open>Lines 86 to 90 of \<open>Head.forward\<close>: the raw affinities
  \<open>q @ k.transpose(-2, -1) * C ** -0.5\<close>, with \<open>C\<close> the last dimension of the input
  \<open>x\<close>. The power is computed on Python numbers.\<close>

definition affinity :: "head \<Rightarrow> mat \<Rightarrow> mat" where
  "affinity h x =
     (let C = ncols x;
          k = map (linear_nb (head_key h)) x;
          q = map (linear_nb (head_query h)) x
      in mscale (matmul_t q k) (Fin (real C powr (- (1 / 2)))))"

text \<open>Line 91: the causal mask \<open>self.tril[:T, :T] == 0\<close>, and the affinities with it
  applied.\<close>

definition causal_mask :: "nat \<Rightarrow> bool list list" where
  "causal_mask T = map (map (\<lambda>a. a = Fin 0)) (map (take T) (take T tril))"

definition masked :: "head \<Rightarrow> mat \<Rightarrow> mat result" where
  "masked h x =
     (let T = length x
      in masked_fill (affinity h x) (causal_mask T))"

text \<open>Line 92: the softmax along the key axis.\<close>

definition attention :: "head \<Rightarrow> mat \<Rightarrow> mat result" where
  "attention h x =
     (case masked h x of Inl e \<Rightarrow> Inl e | Inr wei \<Rightarrow> Inr (map softmax wei))"

definition head_forward :: "head \<Rightarrow> mat \<Rightarrow> mat result" where
  "head_forward h x =
     (case attention h x of
        Inl e \<Rightarrow> Inl e
      | Inr wei \<Rightarrow>
          (let v = map (linear_nb (head_value h)) x
           in Inr (matmul wei v)))"

subsection \<open>Multi-head attention, feed-forward, block\<close>

record multiheadattention =
  heads :: "head list"
  proj :: linear

text \<open>\<open>torch.cat(outs, dim=-1)\<close> of matrices: it refuses an empty list and matrices of
  different numbers of rows.\<close>

definition cat_last :: "mat list \<Rightarrow> mat result" where
  "cat_last outs =
     (case outs of
        [] \<Rightarrow> Inl ShapeError
      | p # _ \<Rightarrow>
          if list_all (\<lambda>r. length r = length p) outs
          then Inr (map (\<lambda>t. concat (map (\<lambda>r. r ! t) outs)) [0..<length p])
          else Inl ShapeError)"

definition mha_forward :: "multiheadattention \<Rightarrow> mat \<Rightarrow> mat result" where
  "mha_forward a x =
     (case mapM (\<lambda>h. head_forward h x) (heads a) of
        Inl e \<Rightarrow> Inl e
      | Inr outs \<Rightarrow>
          (case cat_last outs of
             Inl e \<Rightarrow> Inl e
           | Inr out \<Rightarrow> Inr (map (linear_fw (proj a)) out)))"

text \<open>\<open>FeedFoward.net\<close>: \<open>Linear(n_embd, 4 * n_embd)\<close>, \<open>ReLU\<close>,
  \<open>Linear(4 * n_embd, n_embd)\<close>, \<open>Dropout\<close>.\<close>

record feedfoward =
  net0 :: linear
  net2 :: linear

definition relu :: "fl \<Rightarrow> fl" where
  "relu a = fmax (Fin 0) a"

definition ffwd_forward :: "feedfoward \<Rightarrow> mat \<Rightarrow> mat" where
  "ffwd_forward f x = map (\<lambda>v. linear_fw (net2 f) (map relu (linear_fw (net0 f) v))) x"

record block =
  sa :: multiheadattention
  ffwd :: feedfoward
  ln1 :: layernorm
  ln2 :: layernorm

text \<open>\<open>Block.forward\<close>: \<open>x = x + self.sa(self.ln1(x))\<close>, then
  \<open>x = x + self.ffwd(self.ln2(x))\<close>.\<close>

definition block_forward :: "block \<Rightarrow> mat \<Rightarrow> mat result" where
  "block_forward b x =
     (case mha_forward (sa b) (map (layer_norm (ln1 b)) x) of
        Inl e \<Rightarrow> Inl e
      | Inr a \<Rightarrow>
          (let x = madd x a
           in Inr (madd x (ffwd_forward (ffwd b) (map (layer_norm (ln2 b)) x)))))"

text \<open>\<open>nn.Sequential\<close> of the blocks.\<close>

fun sequential :: "block list \<Rightarrow> mat \<Rightarrow> mat result" where
  "sequential [] x = Inr x"
| "sequential (b # bs) x =
     (case block_forward b x of Inl e \<Rightarrow> Inl e | Inr y \<Rightarrow> sequential bs y)"

section \<open>The language model\<close>

record model =
  token_embedding_table :: mat
  position_embedding_table :: mat
  blocks :: "block list"
  ln_f :: layernorm
  lm_head :: linear

text \<open>\<open>nn.Embedding\<close>: a row of the table; an index outside the table raises, a negative
  one too.\<close>

definition embedding :: "mat \<Rightarrow> int \<Rightarrow> vec result" where
  "embedding table i =
     (if 0 \<le> i \<and> i < int (length table) then Inr (table ! nat i) else Inl IndexError)"

text \<open>The shapes that the constructors give the parameters.\<close>

definition wf_mat :: "nat \<Rightarrow> nat \<Rightarrow> mat \<Rightarrow> bool" where
  "wf_mat r c w \<longleftrightarrow> length w = r \<and> list_all (\<lambda>v. length v = c) w"

definition wf_linear :: "nat \<Rightarrow> nat \<Rightarrow> linear \<Rightarrow> bool" where
  "wf_linear i out l \<longleftrightarrow> wf_mat out i (lin_weight l) \<and> length (lin_bias l) = out"

definition wf_layernorm :: "layernorm \<Rightarrow> bool" where
  "wf_layernorm p \<longleftrightarrow> length (ln_weight p) = n_embd \<and> length (ln_bias p) = n_embd"

definition wf_head :: "nat \<Rightarrow> head \<Rightarrow> bool" where
  "wf_head head_size h \<longleftrightarrow>
     wf_mat head_size n_embd (head_key h) \<and> wf_mat head_size n_embd (head_query h) \<and>
     wf_mat head_size n_embd (head_value h)"

definition wf_block :: "block \<Rightarrow> bool" where
  "wf_block b \<longleftrightarrow>
     length (heads (sa b)) = n_head \<and> list_all (wf_head (n_embd div n_head)) (heads (sa b)) \<and>
     wf_linear n_embd n_embd (proj (sa b)) \<and>
     wf_linear n_embd (4 * n_embd) (net0 (ffwd b)) \<and>
     wf_linear (4 * n_embd) n_embd (net2 (ffwd b)) \<and>
     wf_layernorm (ln1 b) \<and> wf_layernorm (ln2 b)"

text \<open>The vocabulary size of a model is the number of rows of its token table.\<close>

definition vocab :: "model \<Rightarrow> nat" where
  "vocab m = length (token_embedding_table m)"

definition wf_model :: "model \<Rightarrow> bool" where
  "wf_model m \<longleftrightarrow>
     wf_mat (vocab m) n_embd (token_embedding_table m) \<and>
     wf_mat blocksize n_embd (position_embedding_table m) \<and>
     length (blocks m) = n_layer \<and> list_all wf_block (blocks m) \<and>
     wf_layernorm (ln_f m) \<and> wf_linear n_embd (vocab m) (lm_head m)"

text \<open>A batch of token ids of shape \<open>(B, T)\<close>, and \<open>T\<close> as \<open>forward\<close> reads it off a batch.\<close>

definition is_batch :: "nat \<Rightarrow> nat \<Rightarrow> 'a list list \<Rightarrow> bool" where
  "is_batch B T idx \<longleftrightarrow> length idx = B \<and> list_all (\<lambda>r. length r = T) idx"

definition valid_ids :: "model \<Rightarrow> int list list \<Rightarrow> bool" where
  "valid_ids m idx \<longleftrightarrow> list_all (list_all (\<lambda>i. 0 \<le> i \<and> i < int (vocab m))) idx"

text \<open>Lines 163 to 172 of \<open>forward\<close>: the logits, of shape \<open>(B, T, vocab_size)\<close>.\<close>

definition logits_of :: "model \<Rightarrow> int list list \<Rightarrow> mat list result" where
  "logits_of m idx =
     (let T = ncols idx
      in case mapM (mapM (embedding (token_embedding_table m))) idx of
           Inl e \<Rightarrow> Inl e
         | Inr token_embd \<Rightarrow>
             (case mapM (embedding (position_embedding_table m)) (map int [0..<T]) of
                Inl e \<Rightarrow> Inl e
              | Inr position_embd \<Rightarrow>
                  (case mapM (sequential (blocks m))
                          (map (\<lambda>te. madd te position_embd) token_embd) of
                     Inl e \<Rightarrow> Inl e
                   | Inr x \<Rightarrow>
                       Inr (map (map (\<lambda>v. linear_fw (lm_head m) (layer_norm (ln_f m) v))) x))))"

text \<open>
  \<open>F.cross_entropy(logits, targets)\<close> on logits of shape \<open>(N, C)\<close>: the mean over the
  samples of the negative log-softmax at the target class, the log-softmax being the
  entries less their maximum, less the logarithm of the sum of their exponentials. A
  target equal to the default \<open>ignore_index = -100\<close> is left out of the mean, any other
  target outside \<open>[0, C)\<close> raises, and the mean of no sample is \<open>0 / 0\<close>, NaN.
\<close>

definition log_softmax :: "vec \<Rightarrow> vec" where
  "log_softmax r =
     (let M = foldl fmax NInf r;
          sh = map (\<lambda>x. fsub x M) r;
          lse = fln (fsum (map fexp sh))
      in map (\<lambda>x. fsub x lse) sh)"

definition nll :: "vec \<Rightarrow> int \<Rightarrow> fl" where
  "nll l t = fneg (log_softmax l ! nat t)"

definition cross_entropy :: "mat \<Rightarrow> int list \<Rightarrow> fl result" where
  "cross_entropy logits targets =
     (let C = ncols logits;
          kept = filter (\<lambda>(l, t). t \<noteq> - 100) (zip logits targets)
      in if length logits \<noteq> length targets then Inl ShapeError
         else if list_ex (\<lambda>(l, t). t < 0 \<or> int C \<le> t) kept then Inl IndexError
         else Inr (fdiv (fsum (map (\<lambda>(l, t). nll l t) kept)) (Fin (real (length kept)))))"

text \<open>
  The targets are a two-dimensional tensor of integers: its elements and its strides.
  \<open>t.view(n)\<close> gives the elements in row-major order; it raises when there are not \<open>n\<close> of
  them, and when the strides do not let the two axes be merged: with more than one row
  and more than one column, the stride of the rows must be the number of columns times
  the stride of the columns, as it is in a contiguous tensor.
\<close>

record itensor =
  t_rows :: "int list list"
  t_stride0 :: nat
  t_stride1 :: nat

definition mergeable :: "itensor \<Rightarrow> bool" where
  "mergeable t \<longleftrightarrow>
     length (t_rows t) \<le> 1 \<or> ncols (t_rows t) \<le> 1 \<or>
     t_stride0 t = ncols (t_rows t) * t_stride1 t"

definition view1 :: "nat \<Rightarrow> itensor \<Rightarrow> int list result" where
  "view1 n t =
     (if length (concat (t_rows t)) \<noteq> n then Inl ShapeError
      else if mergeable t then Inr (concat (t_rows t))
      else Inl RuntimeError)"

text \<open>The logits that \<open>forward\<close> returns are three-dimensional without targets and
  two-dimensional with them.\<close>

datatype tensor = T3 "mat list" | T2 mat

fun has_shape :: "tensor \<Rightarrow> nat list \<Rightarrow> bool" where
  "has_shape (T3 x) [B, T, V] =
     (length x = B \<and> list_all (\<lambda>r. length r = T \<and> list_all (\<lambda>v. length v = V) r) x)"
| "has_shape (T2 x) [N, V] = (length x = N \<and> list_all (\<lambda>v. length v = V) x)"
| "has_shape _ _ = False"

definition forward :: "model \<Rightarrow> int list list \<Rightarrow> itensor option \<Rightarrow> (tensor \<times> fl option) result" where
  "forward m idx targets =
     (case logits_of m idx of
        Inl e \<Rightarrow> Inl e
      | Inr logits \<Rightarrow>
          (case targets of
             None \<Rightarrow> Inr (T3 logits, None)
           | Some targets \<Rightarrow>
               (let B = length logits; T = ncols logits;
                    logits = concat logits
                in case view1 (B * T) targets of
                     Inl e \<Rightarrow> Inl e
                   | Inr targets \<Rightarrow>
                       (case cross_entropy logits targets of
                          Inl e \<Rightarrow> Inl e
                        | Inr l \<Rightarrow> Inr (T2 logits, Some l)))))"

subsection \<open>Generation\<close>

text \<open>
  \<open>torch.multinomial(probs, num_samples=1)\<close> on one row: it raises when the row is empty,
  holds an infinity, NaN or a negative number, or sums to zero; otherwise it draws an
  index with the probabilities of the row divided by their sum. The random source is
  explicit: a tape of numbers in \<open>[0, 1)\<close>, one per draw, and a draw is the first index at
  which the running sum of the probabilities exceeds the number (the last index if none
  does).
\<close>

fun pick :: "real list \<Rightarrow> real \<Rightarrow> nat" where
  "pick [] u = 0"
| "pick [p] u = 0"
| "pick (p # ps) u = (if u < p then 0 else Suc (pick ps (u - p)))"

fun fin_val :: "fl \<Rightarrow> real" where
  "fin_val (Fin a) = a"
| "fin_val _ = 0"

definition multinomial :: "vec \<Rightarrow> real \<Rightarrow> nat result" where
  "multinomial p u =
     (let w = map fin_val p; s = sum_list w
      in if p = [] \<or> \<not> list_all (\<lambda>x. is_fin x \<and> 0 \<le> fin_val x) p \<or> s \<le> 0
         then Inl RuntimeError
         else Inr (pick (map (\<lambda>a. a / s) w) u))"

text \<open>\<open>logits[:, -1, :]\<close> on one element of the batch.\<close>

definition last_step :: "mat \<Rightarrow> vec result" where
  "last_step l = (if l = [] then Inl IndexError else Inr (last l))"

text \<open>One iteration of the loop of \<open>generate\<close>; \<open>k\<close> is the position on the tape.\<close>

definition generate_step :: "model \<Rightarrow> (nat \<Rightarrow> real) \<Rightarrow> nat \<Rightarrow> int list list \<Rightarrow> int list list result" where
  "generate_step m tape k idx =
     (let idx_cond = map (\<lambda>r. drop (length r - blocksize) r) idx
      in case forward m idx_cond None of
           Inl e \<Rightarrow> Inl e
         | Inr (T2 l, loss) \<Rightarrow> Inl ShapeError
         | Inr (T3 logits, loss) \<Rightarrow>
             (case mapM last_step logits of
                Inl e \<Rightarrow> Inl e
              | Inr logits \<Rightarrow>
                  (let probs = map softmax logits
                   in case mapM (\<lambda>(b, p). multinomial p (tape (k + b))) (enumerate 0 probs) of
                        Inl e \<Rightarrow> Inl e
                      | Inr idx_next \<Rightarrow> Inr (map2 (\<lambda>r t. r @ [int t]) idx idx_next))))"

fun generate_loop :: "model \<Rightarrow> (nat \<Rightarrow> real) \<Rightarrow> nat \<Rightarrow> int list list \<Rightarrow> nat \<Rightarrow> int list list result" where
  "generate_loop m tape k idx 0 = Inr idx"
| "generate_loop m tape k idx (Suc n) =
     (case generate_step m tape k idx of
        Inl e \<Rightarrow> Inl e
      | Inr idx' \<Rightarrow> generate_loop m tape (k + length idx) idx' n)"

text \<open>\<open>range(max_new_tokens)\<close> is empty for a negative count.\<close>

definition generate :: "model \<Rightarrow> (nat \<Rightarrow> real) \<Rightarrow> int list list \<Rightarrow> int \<Rightarrow> int list list result" where
  "generate m tape idx max_new_tokens = generate_loop m tape 0 idx (nat max_new_tokens)"

section \<open>Auxiliary notions of the proofs\<close>

text \<open>The layers without their error cases: what they return on an input of at most
  \<open>blocksize\<close> positions.\<close>

definition attn_rows :: "head \<Rightarrow> mat \<Rightarrow> mat" where
  "attn_rows h x =
     map (\<lambda>i. softmax (map (\<lambda>j. if i < j then NInf else affinity h x ! i ! j) [0..<length x]))
       [0..<length x]"

definition head_pure :: "head \<Rightarrow> mat \<Rightarrow> mat" where
  "head_pure h x = matmul (attn_rows h x) (map (linear_nb (head_value h)) x)"

definition mha_pure :: "multiheadattention \<Rightarrow> mat \<Rightarrow> mat" where
  "mha_pure a x =
     map (\<lambda>t. linear_fw (proj a) (concat (map (\<lambda>h. head_pure h x ! t) (heads a))))
       [0..<length x]"

definition block_pure :: "block \<Rightarrow> mat \<Rightarrow> mat" where
  "block_pure b x =
     (let x1 = madd x (mha_pure (sa b) (map (layer_norm (ln1 b)) x))
      in madd x1 (ffwd_forward (ffwd b) (map (layer_norm (ln2 b)) x1)))"

fun seq_pure :: "block list \<Rightarrow> mat \<Rightarrow> mat" where
  "seq_pure [] x = x"
| "seq_pure (b # bs) x = seq_pure bs (block_pure b x)"

text \<open>The exponential of an entry less the maximum \<open>m\<close> of its row, as a real number.\<close>

definition ev :: "real \<Rightarrow> fl \<Rightarrow> real" where
  "ev m x = (case x of Fin a \<Rightarrow> (if a - m < - max_float then 0 else exp (a - m)) | _ \<Rightarrow> 0)"

text \<open>The order of the entries of a masked row, and the entries that such a row holds.\<close>

definition fle :: "fl \<Rightarrow> fl \<Rightarrow> bool" where
  "fle x y \<longleftrightarrow> x = NInf \<or> (\<exists>a b. x = Fin a \<and> y = Fin b \<and> a \<le> b)"

definition fin_or_ninf :: "fl \<Rightarrow> bool" where
  "fin_or_ninf x \<longleftrightarrow> is_fin x \<or> x = NInf"

text \<open>The initial representation of one sequence: token embeddings plus the position
  embeddings of the first \<open>T\<close> positions.\<close>

definition embed :: "model \<Rightarrow> nat \<Rightarrow> int list \<Rightarrow> mat" where
  "embed m T r =
     madd (map (\<lambda>i. token_embedding_table m ! nat i) r) (take T (position_embedding_table m))"

text \<open>The logits of one sequence in closed form.\<close>

definition logits_seq :: "model \<Rightarrow> nat \<Rightarrow> int list \<Rightarrow> mat" where
  "logits_seq m T r =
     map (\<lambda>v. linear_fw (lm_head m) (layer_norm (ln_f m) v)) (seq_pure (blocks m) (embed m T r))"

text \<open>A matrix of finite entries.\<close>

definition fin_mat :: "mat \<Rightarrow> bool" where
  "fin_mat w \<longleftrightarrow> list_all (list_all is_fin) w"

text \<open>A normalisation with finite weights and no bias, and a block with finite weights in
  its heads, such normalisations and zero projections: they map zero rows to zero rows.\<close>

definition zero_ln :: "layernorm \<Rightarrow> bool" where
  "zero_ln p \<longleftrightarrow>
     length (ln_weight p) = n_embd \<and> list_all is_fin (ln_weight p) \<and>
     ln_bias p = replicate n_embd (Fin 0)"

text \<open>No overflow in the logits: on every valid batch of at most \<open>blocksize\<close> positions,
  the logits that the model computes are finite numbers.\<close>

definition finite_logits :: "model \<Rightarrow> bool" where
  "finite_logits m \<longleftrightarrow>
     (\<forall>B T idx L. is_batch B T idx \<and> 0 < B \<and> T \<le> blocksize \<and> valid_ids m idx \<and>
          logits_of m idx = Inr L \<longrightarrow>
        list_all (list_all (list_all is_fin)) L)"

subsection \<open>The specification's wording of two steps\<close>

text \<open>The raw affinities as the specification words them: scaled by
  \<open>1 / sqrt(head_size)\<close>, the head size being the number of rows of the key projection.\<close>

definition affinity_spec :: "head \<Rightarrow> mat \<Rightarrow> mat" where
  "affinity_spec h x =
     (let head_size = length (head_key h);
          k = map (linear_nb (head_key h)) x;
          q = map (linear_nb (head_query h)) x
      in mscale (matmul_t q k) (Fin (1 / sqrt (real head_size))))"

text \<open>
  A draw from the categorical distribution \<open>p\<close> with a number \<open>u\<close> of \<open>[0, 1)\<close>: the index
  \<open>j\<close> whose interval of the cumulative sums of \<open>p\<close> holds \<open>u\<close>. The interval of \<open>j\<close> has
  length \<open>p ! j\<close>, so a uniform \<open>u\<close> draws \<open>j\<close> with probability \<open>p ! j\<close>.
\<close>

definition drawn :: "real list \<Rightarrow> real \<Rightarrow> nat \<Rightarrow> bool" where
  "drawn p u j \<longleftrightarrow> j < length p \<and> sum_list (take j p) \<le> u \<and> u < sum_list (take (Suc j) p)"

text \<open>
  One iteration of generation in the words of the specification: \<open>nxt\<close> holds, for each
  sequence of the batch \<open>idx\<close>, a token drawn from the softmax of the logits at the last
  position of the forward pass, without targets, on the last at most \<open>blocksize\<close> tokens
  of the sequence; \<open>k\<close> is the position on the tape of random numbers.
\<close>

definition iteration_spec :: "model \<Rightarrow> (nat \<Rightarrow> real) \<Rightarrow> nat \<Rightarrow> int list list \<Rightarrow> int list \<Rightarrow> bool" where
  "iteration_spec m tape k idx nxt \<longleftrightarrow>
     (\<exists>L. forward m (map (\<lambda>r. drop (length r - blocksize) r) idx) None = Inr (T3 L, None) \<and>
          list_all (\<lambda>r. length (drop (length r - blocksize) r) \<le> blocksize) idx \<and>
          length nxt = length idx \<and>
          (\<forall>b<length idx. \<exists>ws. softmax (last (L ! b)) = map Fin ws \<and> 0 \<le> nxt ! b \<and>
               drawn ws (tape (k + b)) (nat (nxt ! b))))"

subsection \<open>Concrete instances\<close>

text \<open>A head of the program's shape (\<open>head_size = 16\<close>, \<open>n_embd = 64\<close>), an input of one
  position and one of two.\<close>

definition head_ex :: head where
  "head_ex = \<lparr>head_key = replicate 16 (replicate 64 (Fin (1 / 64))),
              head_query = replicate 16 (replicate 64 (Fin (1 / 64))),
              head_value = replicate 16 (replicate 64 (Fin (1 / 64)))\<rparr>"

definition x_ex :: mat where
  "x_ex = [replicate 64 (Fin 1)]"

definition x_ex2 :: mat where
  "x_ex2 = [replicate 64 (Fin 1), replicate 64 (Fin 1)]"

text \<open>A head whose queries are the negated keys, and an input of one position with
  entries \<open>1e20\<close>: the products of query and key entries overflow.\<close>

definition head_neg :: head where
  "head_neg = \<lparr>head_key = replicate 16 (replicate 64 (Fin (1 / 64))),
               head_query = replicate 16 (replicate 64 (Fin (- (1 / 64)))),
               head_value = replicate 16 (replicate 64 (Fin (1 / 64)))\<rparr>"

definition x_big :: mat where
  "x_big = [replicate 64 (Fin 100000000000000000000)]"

text \<open>A model of the program's shape with a vocabulary of two characters, for the
  concrete instances of the theorems.\<close>

definition linear_ex :: "nat \<Rightarrow> nat \<Rightarrow> linear" where
  "linear_ex i out =
     \<lparr>lin_weight = replicate out (replicate i (Fin 0)), lin_bias = replicate out (Fin 0)\<rparr>"

definition layernorm_ex :: layernorm where
  "layernorm_ex = \<lparr>ln_weight = replicate n_embd (Fin 1), ln_bias = replicate n_embd (Fin 0)\<rparr>"

definition block_ex :: block where
  "block_ex =
     \<lparr>sa = \<lparr>heads = replicate n_head head_ex, proj = linear_ex n_embd n_embd\<rparr>,
      ffwd = \<lparr>net0 = linear_ex n_embd (4 * n_embd), net2 = linear_ex (4 * n_embd) n_embd\<rparr>,
      ln1 = layernorm_ex, ln2 = layernorm_ex\<rparr>"

definition model_ex :: model where
  "model_ex =
     \<lparr>token_embedding_table = replicate 2 (replicate n_embd (Fin 0)),
      position_embedding_table = replicate blocksize (replicate n_embd (Fin 0)),
      blocks = replicate n_layer block_ex,
      ln_f = layernorm_ex,
      lm_head = linear_ex n_embd 2\<rparr>"

text \<open>Two batches of one sequence that differ at the second position, and targets.\<close>

definition idx_ex :: "int list list" where
  "idx_ex = [[0, 1]]"

definition idx_ex2 :: "int list list" where
  "idx_ex2 = [[0, 0]]"

definition targets_ex :: itensor where
  "targets_ex = \<lparr>t_rows = [[1, 0]], t_stride0 = 2, t_stride1 = 1\<rparr>"

definition idx_bad :: "int list list" where
  "idx_bad = [[0, 5]]"

definition idx_long :: "int list list" where
  "idx_long = [replicate 33 0]"

definition idx_empty :: "int list list" where
  "idx_empty = [[]]"

text \<open>A batch of two sequences, and targets of its shape that are the transpose of a
  contiguous tensor: the stride of the rows is 1 and that of the columns 2.\<close>

definition idx_sq :: "int list list" where
  "idx_sq = [[0, 1], [1, 0]]"

definition targets_tr :: itensor where
  "targets_tr = \<lparr>t_rows = [[1, 0], [0, 1]], t_stride0 = 1, t_stride1 = 2\<rparr>"

definition zero_block :: "block \<Rightarrow> bool" where
  "zero_block b \<longleftrightarrow>
     list_all (\<lambda>h. fin_mat (head_key h) \<and> fin_mat (head_query h) \<and> fin_mat (head_value h))
       (heads (sa b)) \<and>
     proj (sa b) = linear_ex n_embd n_embd \<and>
     net0 (ffwd b) = linear_ex n_embd (4 * n_embd) \<and>
     net2 (ffwd b) = linear_ex (4 * n_embd) n_embd \<and>
     zero_ln (ln1 b) \<and> zero_ln (ln2 b)"

section \<open>Properties of the codec\<close>

lemma mapM_Inr_all2:
  "mapM f xs = Inr ys \<longleftrightarrow> list_all2 (\<lambda>x y. f x = Inr y) xs ys"
proof (induction xs arbitrary: ys)
  case Nil
  show ?case by auto
next
  case (Cons x xs)
  note IH = Cons.IH [symmetric]
  show ?case
  proof (cases ys)
    case Nil
    then show ?thesis by (simp split: sum.splits)
  next
    case (Cons y ys')
    show ?thesis
      unfolding Cons list_all2_Cons IH by (simp split: sum.splits)
  qed
qed

lemma mapM_Inl_iff:
  "(\<exists>e. mapM f xs = Inl e) \<longleftrightarrow> (\<exists>x \<in> set xs. \<exists>e. f x = Inl e)"
  by (induction xs) (auto split: sum.splits)

lemma dict_comp_notin: "k \<notin> fst ` set kvs \<Longrightarrow> dict_comp kvs d k = d k"
  by (induction kvs d rule: dict_comp.induct) auto

lemma dict_comp_distinct:
  "distinct (map fst kvs) \<Longrightarrow> (k, v) \<in> set kvs \<Longrightarrow> dict_comp kvs d k = Some v"
proof (induction kvs d rule: dict_comp.induct)
  case (1 d)
  then show ?case by simp
next
  case (2 k' v' kvs d)
  show ?case
  proof (cases "(k, v) = (k', v')")
    case True
    with "2.prems" have "k \<notin> fst ` set kvs" by auto
    from dict_comp_notin [OF this] True show ?thesis by simp
  next
    case False
    with "2.prems" have "distinct (map fst kvs)" and "(k, v) \<in> set kvs" by auto
    then have "dict_comp kvs (d(k' \<mapsto> v')) k = Some v" by (rule "2.IH")
    then show ?thesis by simp
  qed
qed

lemma distinct_characters: "distinct (characters corpus)"
  by (simp add: characters_def)

lemma set_characters: "set (characters corpus) = set corpus"
  by (simp add: characters_def)

lemma keys_s_to_i: "map fst (map (\<lambda>(i, ch). (ch, f i)) (enumerate n cs)) = cs"
  by (induction cs arbitrary: n) auto

lemma keys_i_to_s:
  "map fst (map (\<lambda>(i, ch). (int i, ch)) (enumerate n cs)) = map int [n..<n + length cs]"
  by (induction cs arbitrary: n) (auto simp: upt_rec)

lemma s_to_i_None: "c \<notin> set corpus \<Longrightarrow> s_to_i corpus c = None"
proof -
  assume "c \<notin> set corpus"
  then have "c \<notin> fst ` set (map (\<lambda>(i, ch). (ch, int i)) (enumerate 0 (characters corpus)))"
    using keys_s_to_i [of int 0 "characters corpus"] set_characters [of corpus]
    by (metis set_map)
  from dict_comp_notin [OF this] show ?thesis by (simp add: s_to_i_def)
qed

lemma s_to_i_nth:
  assumes "j < vocab_size corpus"
  shows "s_to_i corpus (characters corpus ! j) = Some (int j)"
proof -
  let ?kvs = "map (\<lambda>(i, ch). (ch, int i)) (enumerate 0 (characters corpus))"
  have "distinct (map fst ?kvs)"
    by (simp only: keys_s_to_i distinct_characters)
  moreover have "(j, characters corpus ! j) \<in> set (enumerate 0 (characters corpus))"
    using assms by (simp add: in_set_enumerate_eq vocab_size_def)
  then have "(characters corpus ! j, int j) \<in> set ?kvs"
    by force
  ultimately show ?thesis
    unfolding s_to_i_def by (rule dict_comp_distinct)
qed

lemma i_to_s_nth:
  assumes "j < vocab_size corpus"
  shows "i_to_s corpus (int j) = Some (characters corpus ! j)"
proof -
  let ?kvs = "map (\<lambda>(i, ch). (int i, ch)) (enumerate 0 (characters corpus))"
  have "distinct (map fst ?kvs)"
    by (simp only: keys_i_to_s) (simp add: distinct_map inj_on_def)
  moreover have "(j, characters corpus ! j) \<in> set (enumerate 0 (characters corpus))"
    using assms by (simp add: in_set_enumerate_eq vocab_size_def)
  then have "(int j, characters corpus ! j) \<in> set ?kvs"
    by force
  ultimately show ?thesis
    unfolding i_to_s_def by (rule dict_comp_distinct)
qed

lemma codec_char:
  assumes "c \<in> set corpus"
  shows "\<exists>k. getitem (s_to_i corpus) c = Inr k \<and> getitem (i_to_s corpus) k = Inr c"
proof -
  from assms have "c \<in> set (characters corpus)"
    by (simp only: set_characters)
  then obtain j where j: "j < vocab_size corpus" "characters corpus ! j = c"
    unfolding vocab_size_def in_set_conv_nth by blast
  from s_to_i_nth [OF j(1)] i_to_s_nth [OF j(1)] j(2) show ?thesis
    by (simp add: getitem_def)
qed

lemma encode_total:
  assumes "set s \<subseteq> set corpus"
  shows "\<exists>ids. encode corpus s = Inr ids \<and> decode corpus ids = Inr s"
  using assms
proof (induction s)
  case Nil
  show ?case by (simp add: encode_def decode_def)
next
  case (Cons c s)
  then obtain ids where ids: "encode corpus s = Inr ids" "decode corpus ids = Inr s"
    by auto
  from Cons.prems have "c \<in> set corpus" by simp
  from codec_char [OF this] obtain k where
    k: "getitem (s_to_i corpus) c = Inr k" "getitem (i_to_s corpus) k = Inr c"
    by blast
  with ids show ?case by (simp add: encode_def decode_def)
qed

lemma getitem_Inl: "getitem d k = Inl e \<Longrightarrow> e = KeyError"
  by (auto simp: getitem_def split: option.splits)

lemma mapM_getitem_Inl: "mapM (getitem d) xs = Inl e \<Longrightarrow> e = KeyError"
  by (induction xs) (auto split: sum.splits dest: getitem_Inl)

text \<open>
  Claim C9 (codec round trip). For every string built only from characters that occur
  in the training text, \<open>encode\<close> succeeds, and \<open>decode\<close> of its result succeeds and gives
  the string back.
\<close>

theorem codec_round_trip:
  "set s \<subseteq> set corpus \<Longrightarrow> (\<exists>ids. encode corpus s = Inr ids \<and> decode corpus ids = Inr s)"
  by (rule encode_total)

theorem codec_round_trip_witness:
  "set ''abba'' \<subseteq> set ''cab'' \<and>
   (\<exists>ids. encode ''cab'' ''abba'' = Inr ids \<and> decode ''cab'' ids = Inr ''abba'')"
proof -
  have h: "set ''abba'' \<subseteq> set ''cab''" by simp
  from h codec_round_trip [OF h] show ?thesis by (rule conjI)
qed

text \<open>
  Claim C10 (encode is partial). \<open>encode\<close> raises \<open>KeyError\<close> exactly on the strings that
  contain a character absent from the training text; it returns a list exactly on the
  other strings, and that list has one id per character, each the dictionary entry of
  its character, so that nothing is skipped, substituted or dropped.
\<close>

theorem encode_partial:
  "(encode corpus s = Inl KeyError \<longleftrightarrow> \<not> set s \<subseteq> set corpus) \<and>
   ((\<exists>ids. encode corpus s = Inr ids) \<longleftrightarrow> set s \<subseteq> set corpus) \<and>
   (\<forall>ids. encode corpus s = Inr ids \<longrightarrow>
      length ids = length s \<and> list_all2 (\<lambda>c k. s_to_i corpus c = Some k) s ids)"
proof -
  have shape: "length ids = length s \<and> list_all2 (\<lambda>c k. s_to_i corpus c = Some k) s ids"
    if "encode corpus s = Inr ids" for ids
  proof -
    from that have "list_all2 (\<lambda>c k. getitem (s_to_i corpus) c = Inr k) s ids"
      by (simp add: encode_def mapM_Inr_all2)
    then have "list_all2 (\<lambda>c k. s_to_i corpus c = Some k) s ids"
      by (rule list_all2_mono) (auto simp: getitem_def split: option.splits)
    then show ?thesis by (simp add: list_all2_lengthD)
  qed
  show ?thesis
  proof (cases "set s \<subseteq> set corpus")
    case True
    from encode_total [OF True] obtain ids where "encode corpus s = Inr ids"
      by blast
    with True shape show ?thesis by auto
  next
    case False
    then obtain c where c: "c \<in> set s" "c \<notin> set corpus" by auto
    then have "getitem (s_to_i corpus) c = Inl KeyError"
      by (simp add: getitem_def s_to_i_None)
    with c(1) have "\<exists>x \<in> set s. \<exists>e. getitem (s_to_i corpus) x = Inl e"
      by blast
    then obtain e where e: "encode corpus s = Inl e"
      unfolding encode_def mapM_Inl_iff [symmetric] by blast
    then have "e = KeyError"
      unfolding encode_def by (rule mapM_getitem_Inl)
    with e False show ?thesis by simp
  qed
qed

theorem encode_partial_witness:
  "encode ''cab'' ''abz'' = Inl KeyError \<and> \<not> set ''abz'' \<subseteq> set ''cab''"
proof -
  have h: "\<not> set ''abz'' \<subseteq> set ''cab''" by simp
  with encode_partial [of "''cab''" "''abz''"] show ?thesis by blast
qed

section \<open>Floating-point arithmetic\<close>

lemma max_float_pos: "0 < max_float"
  by (simp add: max_float_def)

lemma rnd_in_range: "\<bar>r\<bar> \<le> max_float \<Longrightarrow> rnd r = Fin r"
  by (auto simp: rnd_def)

lemma rnd_0: "rnd 0 = Fin 0"
  by (simp add: rnd_def max_float_def)

lemma fadd_NaN_right: "fadd x NaN = NaN"
  by (cases x) simp_all

lemma fmul_NaN_right: "fmul x NaN = NaN"
  by (cases x) simp_all

lemma fdiv_NaN_right: "fdiv x NaN = NaN"
  by (cases x) simp_all

lemma fsub_NaN_left: "fsub NaN y = NaN"
  by (simp add: fsub_def)

lemma fadd_0_0: "fadd (Fin 0) (Fin 0) = Fin 0"
  by (simp add: rnd_0)

lemma fmul_0_fin: "fmul (Fin 0) (Fin a) = Fin 0" "fmul (Fin a) (Fin 0) = Fin 0"
  by (simp_all add: rnd_0)

lemma foldl_fadd_NaN: "foldl fadd NaN xs = NaN"
  by (induction xs) simp_all

lemma foldl_fadd_has_NaN: "NaN \<in> set xs \<Longrightarrow> foldl fadd a xs = NaN"
  by (induction xs arbitrary: a) (auto simp: fadd_NaN_right foldl_fadd_NaN)

lemma fsum_has_NaN: "NaN \<in> set xs \<Longrightarrow> fsum xs = NaN"
  by (simp add: fsum_def foldl_fadd_has_NaN)

lemma fsum_zeros: "list_all (\<lambda>x. x = Fin 0) xs \<Longrightarrow> fsum xs = Fin 0"
  unfolding fsum_def by (induction xs) (simp_all add: rnd_0)

section \<open>The causal mask and one head\<close>

lemma length_linear_nb: "length (linear_nb W x) = length W"
  by (simp add: linear_nb_def)

lemma tril_nth:
  "i < blocksize \<Longrightarrow> j < blocksize \<Longrightarrow> tril ! i ! j = (if j \<le> i then Fin 1 else Fin 0)"
  by (simp add: tril_def)

lemma length_affinity: "length (affinity h x) = length x"
  by (simp add: affinity_def mscale_def matmul_t_def)

lemma length_affinity_row: "i < length x \<Longrightarrow> length (affinity h x ! i) = length x"
  by (simp add: affinity_def mscale_def matmul_t_def)

lemma affinity_nth:
  "i < length x \<Longrightarrow> j < length x \<Longrightarrow>
   affinity h x ! i ! j =
     fmul (dot (linear_nb (head_query h) (x ! i)) (linear_nb (head_key h) (x ! j)))
       (Fin (real (ncols x) powr (- (1 / 2))))"
  by (simp add: affinity_def mscale_def matmul_t_def)

lemma length_causal_mask: "length (causal_mask T) = min T blocksize"
  by (simp add: causal_mask_def tril_def min.commute)

lemma length_causal_mask_row:
  "i < T \<Longrightarrow> i < blocksize \<Longrightarrow> length (causal_mask T ! i) = min T blocksize"
  by (simp add: causal_mask_def tril_def min.commute)

lemma causal_mask_nth:
  "i < T \<Longrightarrow> j < T \<Longrightarrow> T \<le> blocksize \<Longrightarrow> causal_mask T ! i ! j = (i < j)"
  by (auto simp: causal_mask_def tril_def)

lemma masked_ok:
  assumes "length x \<le> blocksize"
  shows "masked h x =
    Inr (map (\<lambda>i. map (\<lambda>j. if i < j then NInf else affinity h x ! i ! j) [0..<length x])
          [0..<length x])"
proof -
  let ?T = "length x"
  let ?w = "affinity h x"
  let ?m = "causal_mask ?T"
  have lm: "length ?m = ?T" using assms by (simp add: length_causal_mask)
  have lr: "length (?m ! i) = ?T" if "i < ?T" for i
    using that assms by (simp add: length_causal_mask_row)
  have ok: "list_all2 (\<lambda>r m. length r = length m) ?w ?m"
    by (simp add: list_all2_conv_all_nth length_affinity lm length_affinity_row lr)
  have "map2 (map2 (\<lambda>a m. if m then NInf else a)) ?w ?m =
        map (\<lambda>i. map (\<lambda>j. if i < j then NInf else ?w ! i ! j) [0..<?T]) [0..<?T]"
  proof (rule nth_equalityI)
    show "length (map2 (map2 (\<lambda>a m. if m then NInf else a)) ?w ?m) =
          length (map (\<lambda>i. map (\<lambda>j. if i < j then NInf else ?w ! i ! j) [0..<?T]) [0..<?T])"
      by (simp add: length_affinity lm)
  next
    fix i assume "i < length (map2 (map2 (\<lambda>a m. if m then NInf else a)) ?w ?m)"
    then have i: "i < ?T" by (simp add: length_affinity lm)
    have "map2 (\<lambda>a m. if m then NInf else a) (?w ! i) (?m ! i) =
          map (\<lambda>j. if i < j then NInf else ?w ! i ! j) [0..<?T]"
      using i assms
      by (intro nth_equalityI) (simp_all add: length_affinity_row lr causal_mask_nth)
    with i show "map2 (map2 (\<lambda>a m. if m then NInf else a)) ?w ?m ! i =
       map (\<lambda>i. map (\<lambda>j. if i < j then NInf else ?w ! i ! j) [0..<?T]) [0..<?T] ! i"
      by (simp add: length_affinity lm)
  qed
  with ok lm show ?thesis
    by (simp add: masked_def masked_fill_def length_affinity Let_def)
qed

lemma masked_err:
  assumes "blocksize < length x"
  shows "masked h x = Inl ShapeError"
proof -
  have "length (causal_mask (length x)) \<noteq> length (affinity h x)"
    using assms by (simp add: length_causal_mask length_affinity)
  then show ?thesis
    by (simp add: masked_def masked_fill_def Let_def)
qed

lemma attention_ok: "length x \<le> blocksize \<Longrightarrow> attention h x = Inr (attn_rows h x)"
  by (simp add: attention_def masked_ok attn_rows_def comp_def)

lemma head_forward_ok: "length x \<le> blocksize \<Longrightarrow> head_forward h x = Inr (head_pure h x)"
  by (simp add: head_forward_def attention_ok head_pure_def)

lemma head_forward_err: "blocksize < length x \<Longrightarrow> head_forward h x = Inl ShapeError"
  by (simp add: head_forward_def attention_def masked_err)

lemma length_attn_rows: "length (attn_rows h x) = length x"
  by (simp add: attn_rows_def)

lemma length_softmax: "length (softmax v) = length v"
  by (simp add: softmax_def Let_def)

lemma length_attn_row: "i < length x \<Longrightarrow> length (attn_rows h x ! i) = length x"
  by (simp add: attn_rows_def length_softmax)

lemma length_head_pure: "length (head_pure h x) = length x"
  by (simp add: head_pure_def matmul_def length_attn_rows)

section \<open>Layers on inputs of at most blocksize positions\<close>

lemma mapM_all_Inr:
  "(\<And>x. x \<in> set xs \<Longrightarrow> f x = Inr (g x)) \<Longrightarrow> mapM f xs = Inr (map g xs)"
  by (induction xs) auto

lemma cat_last_ok:
  assumes "hs \<noteq> []" "\<And>h. h \<in> set hs \<Longrightarrow> length (g h) = T"
  shows "cat_last (map g hs) = Inr (map (\<lambda>t. concat (map (\<lambda>h. g h ! t) hs)) [0..<T])"
proof -
  from assms(1) obtain h0 hs' where hs: "hs = h0 # hs'" by (cases hs) auto
  have all: "list_all (\<lambda>r. length r = T) (map g hs)"
    using assms(2) by (simp add: list_all_iff)
  have l0: "length (g h0) = T" using assms(2) hs by simp
  show ?thesis
    using all l0 unfolding cat_last_def hs by (simp add: comp_def)
qed

lemma mha_forward_ok:
  assumes "heads a \<noteq> []" "length x \<le> blocksize"
  shows "mha_forward a x = Inr (mha_pure a x)"
proof -
  have "mapM (\<lambda>h. head_forward h x) (heads a) = Inr (map (\<lambda>h. head_pure h x) (heads a))"
    by (rule mapM_all_Inr) (rule head_forward_ok [OF assms(2)])
  moreover have "cat_last (map (\<lambda>h. head_pure h x) (heads a)) =
     Inr (map (\<lambda>t. concat (map (\<lambda>h. head_pure h x ! t) (heads a))) [0..<length x])"
    by (rule cat_last_ok [OF assms(1)]) (rule length_head_pure)
  ultimately show ?thesis
    by (simp add: mha_forward_def mha_pure_def comp_def)
qed

lemma length_mha_pure: "length (mha_pure a x) = length x"
  by (simp add: mha_pure_def)

lemma block_forward_ok:
  assumes "heads (sa b) \<noteq> []" "length x \<le> blocksize"
  shows "block_forward b x = Inr (block_pure b x)"
proof -
  have "length (map (layer_norm (ln1 b)) x) \<le> blocksize" using assms(2) by simp
  from mha_forward_ok [OF assms(1) this] show ?thesis
    by (simp add: block_forward_def block_pure_def Let_def)
qed

lemma length_block_pure: "length (block_pure b x) = length x"
  by (simp add: block_pure_def Let_def madd_def ffwd_forward_def length_mha_pure)

lemma length_seq_pure: "length (seq_pure bs x) = length x"
  by (induction bs arbitrary: x) (simp_all add: length_block_pure)

lemma sequential_ok:
  assumes "\<And>b. b \<in> set bs \<Longrightarrow> heads (sa b) \<noteq> []" "length x \<le> blocksize"
  shows "sequential bs x = Inr (seq_pure bs x)"
  using assms
proof (induction bs arbitrary: x)
  case Nil
  show ?case by simp
next
  case (Cons b bs)
  have "block_forward b x = Inr (block_pure b x)"
    using Cons.prems by (intro block_forward_ok) simp_all
  moreover have "sequential bs (block_pure b x) = Inr (seq_pure bs (block_pure b x))"
    using Cons.prems by (intro Cons.IH) (simp_all add: length_block_pure)
  ultimately show ?case by simp
qed

section \<open>The softmax of a row of finite and masked entries\<close>

lemma fmax_cases: "fmax x y = x \<or> fmax x y = y"
  by (cases x; cases y) (auto simp: max_def)

lemma foldl_fmax_mem: "foldl fmax a r \<in> insert a (set r)"
proof (induction r arbitrary: a)
  case Nil
  show ?case by simp
next
  case (Cons x r)
  from Cons.IH [of "fmax a x"] fmax_cases [of a x] show ?case by auto
qed

lemma fin_or_ninf_cases: "fin_or_ninf x \<Longrightarrow> x = NInf \<or> (\<exists>a. x = Fin a)"
  by (cases x) (simp_all add: fin_or_ninf_def)

lemma fmax_fle:
  assumes "fin_or_ninf x" "fin_or_ninf y"
  shows "fin_or_ninf (fmax x y)" "fle x (fmax x y)" "fle y (fmax x y)"
  using assms by (cases x; cases y; simp add: fin_or_ninf_def fle_def)+

lemma fle_trans: "fle x y \<Longrightarrow> fle y z \<Longrightarrow> fle x z"
  by (auto simp: fle_def)

lemma foldl_fmax_fle:
  assumes "fin_or_ninf a" "list_all fin_or_ninf r"
  shows "fin_or_ninf (foldl fmax a r) \<and> (\<forall>x \<in> insert a (set r). fle x (foldl fmax a r))"
  using assms
proof (induction r arbitrary: a)
  case Nil
  then show ?case by (cases a) (simp_all add: fle_def fin_or_ninf_def)
next
  case (Cons y r)
  then have y: "fin_or_ninf y" and r: "list_all fin_or_ninf r" by simp_all
  note m = fmax_fle [OF Cons.prems(1) y]
  from Cons.IH [OF m(1) r] have
    IH: "fin_or_ninf (foldl fmax (fmax a y) r)"
        "\<And>x. x \<in> insert (fmax a y) (set r) \<Longrightarrow> fle x (foldl fmax (fmax a y) r)"
    by auto
  have "fle a (foldl fmax (fmax a y) r)" using m(2) IH(2) [of "fmax a y"] by (auto intro: fle_trans)
  moreover have "fle y (foldl fmax (fmax a y) r)"
    using m(3) IH(2) [of "fmax a y"] by (auto intro: fle_trans)
  ultimately show ?case using IH by auto
qed

lemma row_max:
  assumes "list_all fin_or_ninf r" "Fin a0 \<in> set r"
  shows "\<exists>m. foldl fmax NInf r = Fin m \<and> Fin m \<in> set r \<and> (\<forall>a. Fin a \<in> set r \<longrightarrow> a \<le> m)"
proof -
  have n: "fin_or_ninf NInf" by (simp add: fin_or_ninf_def)
  from foldl_fmax_fle [OF n assms(1)] have
    le: "\<And>x. x \<in> set r \<Longrightarrow> fle x (foldl fmax NInf r)" by auto
  from le [OF assms(2)] obtain m where m: "foldl fmax NInf r = Fin m"
    by (auto simp: fle_def)
  with foldl_fmax_mem [of NInf r] have "Fin m \<in> set r" by auto
  moreover have "a \<le> m" if "Fin a \<in> set r" for a
    using le [OF that] m by (simp add: fle_def)
  ultimately show ?thesis using m by blast
qed

lemma ev_bounds: "0 \<le> ev m x" "x = NInf \<Longrightarrow> ev m x = 0"
  by (cases x; simp add: ev_def)+

lemma ev_le_1: "x = Fin a \<Longrightarrow> a \<le> m \<Longrightarrow> ev m x \<le> 1"
  by (simp add: ev_def)

lemma ev_max: "ev m (Fin m) = 1"
  using max_float_pos by (simp add: ev_def)

lemma one_le_max_float: "1 \<le> max_float"
  by (simp add: max_float_def)

lemma fexp_fsub_ev:
  assumes "x = NInf \<or> (\<exists>a. x = Fin a \<and> a \<le> m)"
  shows "fexp (fsub x (Fin m)) = Fin (ev m x)"
proof (cases x)
  case (Fin a)
  with assms have le: "a - m \<le> 0" by simp
  show ?thesis
  proof (cases "a - m < - max_float")
    case True
    with max_float_pos have "\<not> max_float < a - m" by simp
    with True show ?thesis using Fin by (simp add: fsub_def rnd_def ev_def)
  next
    case False
    with le max_float_pos have "rnd (a - m) = Fin (a - m)" by (simp add: rnd_def)
    moreover have "rnd (exp (a - m)) = Fin (exp (a - m))"
      using le one_le_max_float by (intro rnd_in_range) (simp add: order_trans [of _ 1])
    ultimately show ?thesis using Fin False by (simp add: fsub_def ev_def)
  qed
qed (use assms in \<open>simp_all add: fsub_def ev_def\<close>)

lemma foldl_fadd_Fin:
  assumes "0 \<le> a" "list_all (\<lambda>e. 0 \<le> e) es" "a + sum_list es \<le> max_float"
  shows "foldl fadd (Fin a) (map Fin es) = Fin (a + sum_list es)"
  using assms
proof (induction es arbitrary: a)
  case Nil
  show ?case by simp
next
  case (Cons e es)
  then have e: "0 \<le> e" and es: "list_all (\<lambda>e. 0 \<le> e) es" by simp_all
  have "0 \<le> sum_list es" using es by (induction es) simp_all
  with Cons.prems e have "\<bar>a + e\<bar> \<le> max_float" by simp
  then have "fadd (Fin a) (Fin e) = Fin (a + e)" by (simp add: rnd_in_range)
  moreover have "foldl fadd (Fin (a + e)) (map Fin es) = Fin (a + e + sum_list es)"
    using Cons.prems e es by (intro Cons.IH) (simp_all add: add.assoc)
  ultimately show ?case by (simp add: add.assoc)
qed

lemma fsum_Fin:
  assumes "list_all (\<lambda>e. 0 \<le> e) es" "sum_list es \<le> max_float"
  shows "fsum (map Fin es) = Fin (sum_list es)"
  using foldl_fadd_Fin [of 0 es] assms by (simp add: fsum_def)

lemma sum_list_le_length:
  "list_all (\<lambda>e. e \<le> (1::real)) es \<Longrightarrow> sum_list es \<le> real (length es)"
  by (induction es) auto

lemma sum_list_nonneg_real: "list_all (\<lambda>e. 0 \<le> (e::real)) es \<Longrightarrow> 0 \<le> sum_list es"
  by (induction es) simp_all

lemma member_le_sum_list_real:
  "list_all (\<lambda>e. 0 \<le> (e::real)) es \<Longrightarrow> e \<in> set es \<Longrightarrow> e \<le> sum_list es"
proof (induction es)
  case Nil
  then show ?case by simp
next
  case (Cons a es)
  then have "0 \<le> sum_list es" "0 \<le> a" by (simp_all add: sum_list_nonneg_real)
  with Cons show ?case by auto
qed

lemma sum_list_divide: "sum_list (map (\<lambda>e. e / s) es) = sum_list es / (s::real)"
  by (induction es) (simp_all add: add_divide_distrib)

lemma softmax_row:
  assumes r: "list_all fin_or_ninf r" and a0: "Fin a0 \<in> set r"
    and len: "real (length r) \<le> max_float"
  shows "\<exists>m s. foldl fmax NInf r = Fin m \<and> s = sum_list (map (ev m) r) \<and> 1 \<le> s \<and>
           softmax r = map (\<lambda>x. Fin (ev m x / s)) r"
proof -
  from row_max [OF r a0] obtain m where
    m: "foldl fmax NInf r = Fin m" "Fin m \<in> set r" "\<And>a. Fin a \<in> set r \<Longrightarrow> a \<le> m"
    by blast
  let ?es = "map (ev m) r"
  let ?s = "sum_list ?es"
  have cases: "x = NInf \<or> (\<exists>a. x = Fin a \<and> a \<le> m)" if "x \<in> set r" for x
    using that r m(3) fin_or_ninf_cases [of x] by (auto simp: list_all_iff)
  have e: "map (\<lambda>x. fexp (fsub x (Fin m))) r = map Fin ?es"
    using cases by (simp add: fexp_fsub_ev)
  have nn: "list_all (\<lambda>e. 0 \<le> e) ?es" by (simp add: list_all_iff ev_bounds)
  have le1: "list_all (\<lambda>e. e \<le> 1) ?es"
    unfolding list_all_iff
  proof
    fix e assume "e \<in> set ?es"
    then obtain x where x: "x \<in> set r" "e = ev m x" by auto
    from cases [OF x(1)] show "e \<le> 1"
      using x(2) by (auto simp: ev_bounds(2) ev_le_1)
  qed
  have "?s \<le> real (length ?es)" using le1 by (rule sum_list_le_length)
  with len have sle: "?s \<le> max_float" by simp
  have S: "fsum (map Fin ?es) = Fin ?s" using nn sle by (rule fsum_Fin)
  have "ev m (Fin m) \<in> set ?es" using m(2) by simp
  then have s1: "1 \<le> ?s"
    using member_le_sum_list_real [OF nn, of "ev m (Fin m)"] by (simp add: ev_max)
  have w: "fdiv (Fin (ev m x)) (Fin ?s) = Fin (ev m x / ?s)" if "x \<in> set r" for x
  proof -
    have "ev m x \<in> set ?es" using that by simp
    then have "ev m x \<le> ?s" using member_le_sum_list_real [OF nn] by blast
    moreover have "0 \<le> ev m x" by (rule ev_bounds)
    ultimately have "0 \<le> ev m x / ?s" "ev m x / ?s \<le> 1" using s1 by simp_all
    then have "\<bar>ev m x / ?s\<bar> \<le> max_float" using one_le_max_float by simp
    then show ?thesis using s1 by (simp add: rnd_in_range)
  qed
  have "softmax r = map (\<lambda>a. fdiv a (Fin ?s)) (map Fin ?es)"
    unfolding softmax_def Let_def m(1) e S ..
  also have "\<dots> = map (\<lambda>x. Fin (ev m x / ?s)) r"
    using w by (simp add: comp_def)
  finally show ?thesis using m(1) s1 by blast
qed

lemma softmax_fin:
  assumes r: "list_all fin_or_ninf r" and a0: "Fin a0 \<in> set r"
    and len: "real (length r) \<le> max_float"
  shows "\<exists>ws. softmax r = map Fin ws \<and> length ws = length r \<and>
           list_all (\<lambda>w. 0 \<le> w \<and> w \<le> 1) ws \<and> sum_list ws = 1 \<and>
           (\<forall>j < length r. r ! j = NInf \<longrightarrow> ws ! j = 0)"
proof -
  from softmax_row [OF assms] obtain m s where
    ms: "s = sum_list (map (ev m) r)" "1 \<le> s" "softmax r = map (\<lambda>x. Fin (ev m x / s)) r"
    by blast
  let ?ws = "map (\<lambda>x. ev m x / s) r"
  have nn: "list_all (\<lambda>e. 0 \<le> e) (map (ev m) r)" by (simp add: list_all_iff ev_bounds)
  have "0 \<le> ev m x / s \<and> ev m x / s \<le> 1" if "x \<in> set r" for x
  proof -
    have "ev m x \<in> set (map (ev m) r)" using that by simp
    then have "ev m x \<le> s" using member_le_sum_list_real [OF nn] ms(1) by blast
    then show ?thesis using ms(2) ev_bounds(1) [of m x] by simp
  qed
  then have b: "list_all (\<lambda>w. 0 \<le> w \<and> w \<le> 1) ?ws" by (simp add: list_all_iff)
  have "sum_list ?ws = sum_list (map (ev m) r) / s"
    using sum_list_divide [of s "map (ev m) r"] by (simp add: comp_def)
  then have one: "sum_list ?ws = 1" using ms(1,2) by simp
  have z: "\<forall>j < length r. r ! j = NInf \<longrightarrow> ?ws ! j = 0" by (simp add: ev_bounds(2))
  have "softmax r = map Fin ?ws" using ms(3) by (simp add: comp_def)
  with b one z show ?thesis by (intro exI [of _ ?ws]) simp
qed

section \<open>Scaling of the affinities and attention weights\<close>

lemma foldl_fadd_bounded:
  assumes "\<bar>a\<bar> + sum_list (map abs es) \<le> max_float"
  shows "foldl fadd (Fin a) (map Fin es) = Fin (a + sum_list es)"
  using assms
proof (induction es arbitrary: a)
  case Nil
  show ?case by simp
next
  case (Cons e es)
  have nn: "0 \<le> sum_list (map abs es)" by (induction es) simp_all
  with Cons.prems have "\<bar>a + e\<bar> \<le> max_float" by simp
  then have "fadd (Fin a) (Fin e) = Fin (a + e)" by (simp add: rnd_in_range)
  moreover have "foldl fadd (Fin (a + e)) (map Fin es) = Fin (a + e + sum_list es)"
    using Cons.prems by (intro Cons.IH) simp
  ultimately show ?case by (simp add: add.assoc)
qed

lemma dot_replicate:
  assumes "real n * \<bar>a * b\<bar> \<le> max_float"
  shows "dot (replicate n (Fin a)) (replicate n (Fin b)) = Fin (real n * (a * b))"
proof (cases n)
  case 0
  then show ?thesis by (simp add: dot_def fsum_def)
next
  case (Suc k)
  have "\<bar>a * b\<bar> \<le> real n * \<bar>a * b\<bar>"
    using Suc by (simp add: mult_le_cancel_right1)
  with assms have r: "rnd (a * b) = Fin (a * b)" by (intro rnd_in_range) simp
  have m: "map2 fmul (replicate n (Fin a)) (replicate n (Fin b)) = map Fin (replicate n (a * b))"
    by (simp add: zip_replicate r)
  have "foldl fadd (Fin 0) (map Fin (replicate n (a * b))) =
                 Fin (0 + sum_list (replicate n (a * b)))"
    using assms by (intro foldl_fadd_bounded) (simp add: sum_list_replicate)
  then have "fsum (map Fin (replicate n (a * b))) = Fin (real n * (a * b))"
    by (simp add: fsum_def sum_list_replicate)
  then show ?thesis by (simp only: dot_def m)
qed

lemma sqrt_64: "sqrt 64 = 8"
  by (rule real_sqrt_unique) simp_all

lemma sqrt_16: "sqrt 16 = 4"
  by (rule real_sqrt_unique) simp_all

lemma powr_64: "(64::real) powr (- (1 / 2)) = 1 / 8"
proof -
  have "(64::real) powr (1 / 2) = sqrt 64" by (rule powr_half_sqrt) simp
  then show ?thesis by (simp only: powr_minus_divide sqrt_64)
qed

lemma wf_head_ex: "wf_head (n_embd div n_head) head_ex"
  by (simp add: wf_head_def wf_mat_def head_ex_def n_embd_def n_head_def list_all_iff)

lemma dot_ones_ex: "dot (replicate 64 (Fin 1)) (replicate 64 (Fin (1 / 64))) = Fin 1"
  using dot_replicate [of 64 1 "1 / 64"] by (simp add: max_float_def)

lemma dot_16_ex: "dot (replicate 16 (Fin 1)) (replicate 16 (Fin 1)) = Fin 16"
  using dot_replicate [of 16 1 1] by (simp add: max_float_def)

lemma qk_ex:
  "linear_nb (head_query head_ex) (replicate 64 (Fin 1)) = replicate 16 (Fin 1)"
  "linear_nb (head_key head_ex) (replicate 64 (Fin 1)) = replicate 16 (Fin 1)"
  by (simp_all add: linear_nb_def head_ex_def dot_ones_ex)

lemma affinity_ex: "affinity head_ex x_ex = [[Fin 2]]"
  by (simp add: affinity_def x_ex_def ncols_def qk_ex mscale_def matmul_t_def dot_16_ex
      powr_64 rnd_def max_float_def)

lemma affinity_spec_ex: "affinity_spec head_ex x_ex = [[Fin 4]]"
proof -
  have "length (head_key head_ex) = 16" by (simp add: head_ex_def)
  then show ?thesis
    by (simp add: affinity_spec_def x_ex_def qk_ex mscale_def matmul_t_def dot_16_ex
        sqrt_16 rnd_def max_float_def)
qed

text \<open>
  Claim C2 (scaling of the affinities). The claim has the scores scaled by
  \<open>1 / sqrt(head_size)\<close>. \<open>Head.forward\<close> scales by \<open>C ** -0.5\<close> with \<open>C\<close> the last dimension
  of its input, the embedding width 64, and not the head size 16: on a head of the
  program's shape and the input of one position of ones, the code's score is 2 where
  the claim's is 4.
\<close>

theorem affinity_scale_ex:
  "wf_head (n_embd div n_head) head_ex \<and> affinity head_ex x_ex = [[Fin 2]] \<and>
   affinity_spec head_ex x_ex = [[Fin 4]] \<and> affinity head_ex x_ex \<noteq> affinity_spec head_ex x_ex"
  by (simp add: wf_head_ex affinity_ex affinity_spec_ex)

lemma blocksize_le_max_float: "T \<le> blocksize \<Longrightarrow> real T \<le> max_float"
proof -
  assume "T \<le> blocksize"
  then have "real T \<le> 32" by (simp add: blocksize_def)
  then show ?thesis by (simp add: max_float_def)
qed

lemma sum_list_upt_causal:
  assumes "i < T" "\<And>j. j < T \<Longrightarrow> i < j \<Longrightarrow> f j = (0::real)"
  shows "sum_list (map f [0..<T]) = sum f {..i}"
proof -
  have "sum_list (map f [0..<T]) = sum f {0..<T}"
    by (simp add: interv_sum_list_conv_sum_set_nat)
  also have "\<dots> = sum f {..i}"
    using assms by (intro sum.mono_neutral_right) auto
  finally show ?thesis .
qed

text \<open>
  Claim C5 (attention weights), as amended. For an input of at most \<open>blocksize\<close>
  positions and a query position \<open>i\<close> whose raw affinities to the key positions up to
  \<open>i\<close> are finite, the mask and the softmax succeed; the masked row has \<open>-inf\<close> exactly at
  the key positions after \<open>i\<close>, so the entry at \<open>i\<close> itself is not \<open>-inf\<close>; the attention
  weights of the row are finite and non-negative, zero at the masked positions, and
  those at the key positions up to \<open>i\<close> sum to 1.
\<close>

theorem attention_weights_normalized:
  assumes "length x \<le> blocksize" "i < length x"
    and "list_all is_fin (take (Suc i) (affinity h x ! i))"
  shows "\<exists>ms att ws. masked h x = Inr ms \<and> attention h x = Inr att \<and>
     ms ! i ! i \<noteq> NInf \<and> (\<forall>j < length x. ms ! i ! j = NInf \<longleftrightarrow> i < j) \<and>
     att ! i = map Fin ws \<and> length ws = length x \<and>
     (\<forall>j < length x. 0 \<le> ws ! j) \<and> (\<forall>j < length x. i < j \<longrightarrow> ws ! j = 0) \<and>
     (\<Sum>j\<le>i. ws ! j) = 1"
proof -
  let ?T = "length x"
  let ?row = "\<lambda>i. map (\<lambda>j. if i < j then NInf else affinity h x ! i ! j) [0..<?T]"
  let ?ms = "map ?row [0..<?T]"
  have m: "masked h x = Inr ?ms" by (rule masked_ok [OF assms(1)])
  have a: "attention h x = Inr (attn_rows h x)" by (rule attention_ok [OF assms(1)])
  have fin: "is_fin (affinity h x ! i ! j)" if "j \<le> i" for j
  proof -
    from that assms(2) have "j < length (take (Suc i) (affinity h x ! i))"
      by (simp add: length_affinity_row)
    with assms(3) have "is_fin (take (Suc i) (affinity h x ! i) ! j)"
      by (simp add: list_all_length)
    with that show ?thesis by simp
  qed
  have r1: "list_all fin_or_ninf (?row i)"
    using fin by (simp add: list_all_length fin_or_ninf_def not_less)
  from fin [of i] obtain a0 where a0: "affinity h x ! i ! i = Fin a0"
    by (cases "affinity h x ! i ! i") simp_all
  have "?row i ! i = Fin a0" using assms(2) a0 by simp
  then have r2: "Fin a0 \<in> set (?row i)"
    using assms(2) by (metis length_map length_upt minus_nat.diff_0 nth_mem)
  have r3: "real (length (?row i)) \<le> max_float"
    using assms(1) by (simp add: blocksize_le_max_float)
  from softmax_fin [OF r1 r2 r3] obtain ws where
    ws: "softmax (?row i) = map Fin ws" "length ws = ?T"
        "list_all (\<lambda>w. 0 \<le> w \<and> w \<le> 1) ws" "sum_list ws = 1"
        "\<forall>j < length (?row i). ?row i ! j = NInf \<longrightarrow> ws ! j = 0"
    by auto
  have "attn_rows h x ! i = softmax (?row i)"
    using assms(2) by (simp add: attn_rows_def cong: if_cong)
  with ws(1) have att: "attn_rows h x ! i = map Fin ws" by simp
  have z: "ws ! j = 0" if "j < ?T" "i < j" for j
    using that ws(5) by simp
  have nn: "0 \<le> ws ! j" if "j < ?T" for j
    using that ws(2,3) by (simp add: list_all_length)
  have "sum_list ws = sum_list (map (\<lambda>j. ws ! j) [0..<?T])"
    using map_nth [of ws] ws(2) by simp
  also have "\<dots> = (\<Sum>j\<le>i. ws ! j)"
    using assms(2) z by (intro sum_list_upt_causal) simp_all
  finally have s: "(\<Sum>j\<le>i. ws ! j) = 1" using ws(4) by simp
  have ms1: "?ms ! i ! i \<noteq> NInf" using assms(2) a0 by simp
  have ms2: "\<forall>j < ?T. ?ms ! i ! j = NInf \<longleftrightarrow> i < j"
  proof (intro allI impI)
    fix j assume j: "j < ?T"
    show "?ms ! i ! j = NInf \<longleftrightarrow> i < j"
    proof (cases "i < j")
      case True
      with j assms(2) show ?thesis by simp
    next
      case False
      then have "is_fin (affinity h x ! i ! j)" by (intro fin) simp
      then have "affinity h x ! i ! j \<noteq> NInf" by auto
      with False j assms(2) show ?thesis by simp
    qed
  qed
  from m a ms1 ms2 att ws(2) nn z s show ?thesis by blast
qed

lemma affinity_ex2_00: "affinity head_ex x_ex2 ! 0 ! 0 = Fin 2"
proof -
  have "(0::nat) < length x_ex2" by (simp add: x_ex2_def)
  from affinity_nth [OF this this, of head_ex] show ?thesis
    by (simp add: x_ex2_def ncols_def qk_ex dot_16_ex powr_64 rnd_def max_float_def)
qed

theorem attention_weights_normalized_witness:
  "length x_ex2 \<le> blocksize \<and> 0 < length x_ex2 \<and>
   list_all is_fin (take (Suc 0) (affinity head_ex x_ex2 ! 0)) \<and>
   (\<exists>ms att ws. masked head_ex x_ex2 = Inr ms \<and> attention head_ex x_ex2 = Inr att \<and>
     ms ! 0 ! 0 \<noteq> NInf \<and> (\<forall>j < length x_ex2. ms ! 0 ! j = NInf \<longleftrightarrow> 0 < j) \<and>
     att ! 0 = map Fin ws \<and> length ws = length x_ex2 \<and>
     (\<forall>j < length x_ex2. 0 \<le> ws ! j) \<and> (\<forall>j < length x_ex2. 0 < j \<longrightarrow> ws ! j = 0) \<and>
     (\<Sum>j\<le>0. ws ! j) = 1)"
proof -
  have h1: "length x_ex2 \<le> blocksize" by (simp add: x_ex2_def blocksize_def)
  have h2: "0 < length x_ex2" by (simp add: x_ex2_def)
  have "length (affinity head_ex x_ex2 ! 0) = 2"
    using length_affinity_row [of 0 x_ex2 head_ex] by (simp add: x_ex2_def)
  then have "take (Suc 0) (affinity head_ex x_ex2 ! 0) = [affinity head_ex x_ex2 ! 0 ! 0]"
    by (cases "affinity head_ex x_ex2 ! 0") simp_all
  then have h3: "list_all is_fin (take (Suc 0) (affinity head_ex x_ex2 ! 0))"
    by (simp add: affinity_ex2_00)
  from h1 h2 h3 attention_weights_normalized [OF h1 h2 h3] show ?thesis
    by (intro conjI)
qed

lemma foldl_fadd_NInf: "foldl fadd NInf (replicate n NInf) = NInf"
  by (induction n) simp_all

lemma k_big:
  "linear_nb (head_key head_neg) (replicate 64 (Fin 100000000000000000000)) =
   replicate 16 (Fin 100000000000000000000)"
  using dot_replicate [of 64 100000000000000000000 "1 / 64"]
  by (simp add: linear_nb_def head_neg_def max_float_def)

lemma q_big:
  "linear_nb (head_query head_neg) (replicate 64 (Fin 100000000000000000000)) =
   replicate 16 (Fin (- 100000000000000000000))"
  using dot_replicate [of 64 100000000000000000000 "- (1 / 64)"]
  by (simp add: linear_nb_def head_neg_def max_float_def)

lemma dot_qk_big:
  "dot (replicate 16 (Fin (- 100000000000000000000))) (replicate 16 (Fin 100000000000000000000)) =
   NInf"
proof -
  have "rnd (- 100000000000000000000 * 100000000000000000000) = NInf"
    by (simp add: rnd_def max_float_def)
  then have "map2 fmul (replicate 16 (Fin (- 100000000000000000000)))
               (replicate 16 (Fin 100000000000000000000)) = replicate 16 NInf"
    by (simp add: zip_replicate)
  moreover have "foldl fadd (Fin 0) (replicate (Suc 15) NInf) = NInf"
    unfolding replicate_Suc by (simp add: foldl_fadd_NInf)
  ultimately show ?thesis by (simp add: dot_def fsum_def)
qed

lemma affinity_big: "affinity head_neg x_big = [[NInf]]"
  by (simp add: affinity_def x_big_def ncols_def k_big q_big mscale_def matmul_t_def
      dot_qk_big powr_64)

text \<open>The claim as stated fails where the affinities overflow: with queries opposite to
  the keys and entries \<open>1e20\<close>, the score of the only position to itself is \<open>-inf\<close>, the
  masked row has no other entry, and its attention weight is NaN.\<close>

theorem attention_overflow_ex:
  "length x_big \<le> blocksize \<and> 0 < length x_big \<and>
   masked head_neg x_big = Inr [[NInf]] \<and> attention head_neg x_big = Inr [[NaN]]"
proof -
  have l: "length x_big \<le> blocksize" "0 < length x_big" "length x_big = 1"
    by (simp_all add: x_big_def blocksize_def)
  have m: "masked head_neg x_big = Inr [[NInf]]"
    using masked_ok [OF l(1), of head_neg] by (simp add: l(3) affinity_big)
  have "softmax [NInf] = [NaN]"
    by (simp add: softmax_def fsub_def fsum_def)
  with m have "attention head_neg x_big = Inr [[NaN]]"
    by (simp add: attention_def)
  with l m show ?thesis by (intro conjI)
qed

section \<open>The transformer block\<close>

lemma length_linear_fw: "wf_linear i out l \<Longrightarrow> length (linear_fw l v) = out"
  by (simp add: wf_linear_def wf_mat_def linear_fw_def vadd_def linear_nb_def)

lemma wf_mat_nth: "wf_mat T C x \<Longrightarrow> t < T \<Longrightarrow> length (x ! t) = C"
  by (simp add: wf_mat_def list_all_length)

lemma wf_mat_length: "wf_mat T C x \<Longrightarrow> length x = T"
  by (simp add: wf_mat_def)

lemma wf_mat_madd:
  assumes "wf_mat T C x" "wf_mat T C y"
  shows "wf_mat T C (madd x y)"
    and "\<And>t c. t < T \<Longrightarrow> c < C \<Longrightarrow> madd x y ! t ! c = fadd (x ! t ! c) (y ! t ! c)"
proof -
  show "wf_mat T C (madd x y)"
    using assms by (simp add: wf_mat_def madd_def vadd_def list_all_length)
  fix t c assume "t < T" "c < C"
  then show "madd x y ! t ! c = fadd (x ! t ! c) (y ! t ! c)"
    using assms by (simp add: wf_mat_def madd_def vadd_def list_all_length)
qed

lemma wf_mat_map_linear:
  assumes "wf_linear i out l"
  shows "wf_mat (length x) out (map (\<lambda>v. linear_fw l (g v)) x)"
  using assms by (simp add: wf_mat_def list_all_iff length_linear_fw)

lemma wf_mat_mha_pure:
  assumes "wf_linear n_embd n_embd (proj a)"
  shows "wf_mat (length x) n_embd (mha_pure a x)"
proof -
  have "wf_mat (length [0..<length x]) n_embd (mha_pure a x)"
    unfolding mha_pure_def using assms by (rule wf_mat_map_linear)
  then show ?thesis by simp
qed

lemma mha_shape:
  assumes "wf_block b" "length x \<le> blocksize"
  shows "mha_forward (sa b) x = Inr (mha_pure (sa b) x)"
    and "wf_mat (length x) n_embd (mha_pure (sa b) x)"
proof -
  from assms(1) have h: "heads (sa b) \<noteq> []" and p: "wf_linear n_embd n_embd (proj (sa b))"
    by (auto simp: wf_block_def n_head_def)
  show "mha_forward (sa b) x = Inr (mha_pure (sa b) x)"
    using h assms(2) by (rule mha_forward_ok)
  show "wf_mat (length x) n_embd (mha_pure (sa b) x)"
    using p by (rule wf_mat_mha_pure)
qed

lemma wf_mat_ffwd:
  assumes "wf_block b"
  shows "wf_mat (length x) n_embd (ffwd_forward (ffwd b) x)"
proof -
  from assms have n2: "wf_linear (4 * n_embd) n_embd (net2 (ffwd b))"
    by (simp add: wf_block_def)
  show ?thesis unfolding ffwd_forward_def using n2 by (rule wf_mat_map_linear)
qed

lemma wf_mat_block_pure:
  assumes "wf_block b" "wf_mat T n_embd x"
  shows "wf_mat T n_embd (madd x (mha_pure (sa b) (map (layer_norm (ln1 b)) x)))"
    and "wf_mat T n_embd (block_pure b x)"
proof -
  have lx: "length x = T" using assms(2) by (rule wf_mat_length)
  from assms(1) have p: "wf_linear n_embd n_embd (proj (sa b))" by (simp add: wf_block_def)
  have "wf_mat (length (map (layer_norm (ln1 b)) x)) n_embd
          (mha_pure (sa b) (map (layer_norm (ln1 b)) x))"
    using p by (rule wf_mat_mha_pure)
  then have a: "wf_mat T n_embd (mha_pure (sa b) (map (layer_norm (ln1 b)) x))"
    using lx by simp
  show x1: "wf_mat T n_embd (madd x (mha_pure (sa b) (map (layer_norm (ln1 b)) x)))"
    using assms(2) a by (rule wf_mat_madd(1))
  let ?x1 = "madd x (mha_pure (sa b) (map (layer_norm (ln1 b)) x))"
  have "wf_mat (length (map (layer_norm (ln2 b)) ?x1)) n_embd
          (ffwd_forward (ffwd b) (map (layer_norm (ln2 b)) ?x1))"
    using assms(1) by (rule wf_mat_ffwd)
  then have "wf_mat T n_embd (ffwd_forward (ffwd b) (map (layer_norm (ln2 b)) ?x1))"
    using wf_mat_length [OF x1] by simp
  with x1 show "wf_mat T n_embd (block_pure b x)"
    unfolding block_pure_def Let_def by (rule wf_mat_madd(1))
qed

text \<open>
  Claim C8 (transformer block). On an input \<open>x\<close> of shape \<open>(T, n_embd)\<close> with
  \<open>T \<le> blocksize\<close>, the block succeeds and returns \<open>x1 + FeedForward(LayerNorm2(x1))\<close>
  where \<open>x1 = x + MultiHeadAttention(LayerNorm1(x))\<close>: each normalisation comes before its
  sub-layer, every intermediate has the shape of \<open>x\<close>, and each sum is entry by entry,
  so that a sub-layer's result is added to its input and never replaces it.
\<close>

theorem block_residual:
  assumes "wf_block b" "wf_mat T n_embd x" "T \<le> blocksize"
  shows "\<exists>a x1 f y.
           mha_forward (sa b) (map (layer_norm (ln1 b)) x) = Inr a \<and>
           x1 = madd x a \<and>
           f = ffwd_forward (ffwd b) (map (layer_norm (ln2 b)) x1) \<and>
           block_forward b x = Inr y \<and>
           wf_mat T n_embd a \<and> wf_mat T n_embd x1 \<and> wf_mat T n_embd f \<and> wf_mat T n_embd y \<and>
           (\<forall>t<T. \<forall>c<n_embd. x1 ! t ! c = fadd (x ! t ! c) (a ! t ! c) \<and>
                               y ! t ! c = fadd (x1 ! t ! c) (f ! t ! c))"
proof -
  have lx: "length x = T" using assms(2) by (rule wf_mat_length)
  have l1: "length (map (layer_norm (ln1 b)) x) \<le> blocksize" using lx assms(3) by simp
  let ?a = "mha_pure (sa b) (map (layer_norm (ln1 b)) x)"
  have a: "mha_forward (sa b) (map (layer_norm (ln1 b)) x) = Inr ?a"
    using assms(1) l1 by (rule mha_shape(1))
  have "wf_mat (length (map (layer_norm (ln1 b)) x)) n_embd ?a"
    using assms(1) l1 by (rule mha_shape(2))
  then have wa: "wf_mat T n_embd ?a" using lx by simp
  let ?x1 = "madd x ?a"
  let ?f = "ffwd_forward (ffwd b) (map (layer_norm (ln2 b)) ?x1)"
  let ?y = "madd ?x1 ?f"
  note x1 = wf_mat_madd [OF assms(2) wa]
  have "wf_mat (length (map (layer_norm (ln2 b)) ?x1)) n_embd ?f"
    using assms(1) by (rule wf_mat_ffwd)
  then have f: "wf_mat T n_embd ?f"
    using wf_mat_length [OF x1(1)] by simp
  note y = wf_mat_madd [OF x1(1) f]
  have bf: "block_forward b x = Inr ?y"
    by (simp add: block_forward_def a Let_def)
  have "\<forall>t<T. \<forall>c<n_embd. ?x1 ! t ! c = fadd (x ! t ! c) (?a ! t ! c) \<and>
                               ?y ! t ! c = fadd (?x1 ! t ! c) (?f ! t ! c)"
    using x1(2) y(2) by blast
  with a wa bf x1(1) f y(1) show ?thesis by blast
qed

lemma wf_linear_ex: "wf_linear i out (linear_ex i out)"
  by (simp add: wf_linear_def wf_mat_def linear_ex_def list_all_iff)

lemma wf_layernorm_ex: "wf_layernorm layernorm_ex"
  by (simp add: wf_layernorm_def layernorm_ex_def)

lemma wf_block_ex: "wf_block block_ex"
  by (simp add: wf_block_def block_ex_def wf_linear_ex wf_layernorm_ex wf_head_ex list_all_iff)

lemma vocab_ex: "vocab model_ex = 2"
  by (simp add: vocab_def model_ex_def)

lemma wf_model_ex: "wf_model model_ex"
  unfolding wf_model_def vocab_ex
  by (simp add: model_ex_def wf_mat_def wf_block_ex wf_layernorm_ex wf_linear_ex list_all_iff)

theorem block_residual_witness:
  "wf_block block_ex \<and> wf_mat 1 n_embd x_ex \<and> 1 \<le> blocksize \<and>
   (\<exists>a x1 f y.
           mha_forward (sa block_ex) (map (layer_norm (ln1 block_ex)) x_ex) = Inr a \<and>
           x1 = madd x_ex a \<and>
           f = ffwd_forward (ffwd block_ex) (map (layer_norm (ln2 block_ex)) x1) \<and>
           block_forward block_ex x_ex = Inr y \<and>
           wf_mat 1 n_embd a \<and> wf_mat 1 n_embd x1 \<and> wf_mat 1 n_embd f \<and> wf_mat 1 n_embd y \<and>
           (\<forall>t<1. \<forall>c<n_embd. x1 ! t ! c = fadd (x_ex ! t ! c) (a ! t ! c) \<and>
                               y ! t ! c = fadd (x1 ! t ! c) (f ! t ! c)))"
proof -
  have h1: "wf_mat 1 n_embd x_ex" by (simp add: wf_mat_def x_ex_def n_embd_def)
  have h2: "1 \<le> blocksize" by (simp add: blocksize_def)
  from wf_block_ex h1 h2 block_residual [OF wf_block_ex h1 h2] show ?thesis
    by (intro conjI)
qed

section \<open>The forward pass\<close>

lemma mapM_fails:
  assumes "x \<in> set xs" "f x = Inl e0" "\<And>y e. f y = Inl e \<Longrightarrow> e = e0"
  shows "mapM f xs = Inl e0"
proof -
  from assms(1,2) have "\<exists>e. mapM f xs = Inl e"
    unfolding mapM_Inl_iff by blast
  then obtain e where e: "mapM f xs = Inl e" ..
  then have "\<exists>y \<in> set xs. f y = Inl e"
    by (induction xs) (auto split: sum.splits)
  with assms(3) e show ?thesis by blast
qed

lemma embedding_Inl: "embedding tab i = Inl e \<Longrightarrow> e = IndexError"
  by (simp add: embedding_def split: if_splits)

lemma mapM_embedding_Inl: "mapM (embedding tab) xs = Inl e \<Longrightarrow> e = IndexError"
  by (induction xs) (auto split: sum.splits dest: embedding_Inl)

lemma mapM_embedding_ok:
  assumes "list_all (\<lambda>i. 0 \<le> i \<and> i < int (length tab)) r"
  shows "mapM (embedding tab) r = Inr (map (\<lambda>i. tab ! nat i) r)"
  using assms by (intro mapM_all_Inr) (simp add: embedding_def list_all_iff)

lemma mapM_embedding_fail:
  assumes "\<not> list_all (\<lambda>i. 0 \<le> i \<and> i < int (length tab)) r"
  shows "mapM (embedding tab) r = Inl IndexError"
proof -
  from assms obtain i where i: "i \<in> set r" "\<not> (0 \<le> i \<and> i < int (length tab))"
    by (auto simp: list_all_iff)
  then have "embedding tab i = Inl IndexError" by (simp add: embedding_def)
  with i(1) show ?thesis
    by (rule mapM_fails) (rule embedding_Inl)
qed

lemma token_embd_ok:
  assumes "valid_ids m idx"
  shows "mapM (mapM (embedding (token_embedding_table m))) idx =
         Inr (map (map (\<lambda>i. token_embedding_table m ! nat i)) idx)"
  using assms
  by (intro mapM_all_Inr mapM_embedding_ok) (simp add: valid_ids_def vocab_def list_all_iff)

lemma token_embd_fail:
  assumes "\<not> valid_ids m idx"
  shows "mapM (mapM (embedding (token_embedding_table m))) idx = Inl IndexError"
proof -
  from assms obtain r where r: "r \<in> set idx"
    "\<not> list_all (\<lambda>i. 0 \<le> i \<and> i < int (length (token_embedding_table m))) r"
    by (auto simp: valid_ids_def vocab_def list_all_iff)
  from r(2) have "mapM (embedding (token_embedding_table m)) r = Inl IndexError"
    by (rule mapM_embedding_fail)
  with r(1) show ?thesis
    by (rule mapM_fails) (rule mapM_embedding_Inl)
qed

lemma position_embd_ok:
  assumes "T \<le> length tab"
  shows "mapM (embedding tab) (map int [0..<T]) = Inr (take T tab)"
proof -
  have "mapM (embedding tab) (map int [0..<T]) = Inr (map (\<lambda>i. tab ! nat i) (map int [0..<T]))"
    using assms by (intro mapM_embedding_ok) (simp add: list_all_iff)
  moreover have "map (\<lambda>i. tab ! nat i) (map int [0..<T]) = take T tab"
    using assms by (intro nth_equalityI) simp_all
  ultimately show ?thesis by simp
qed

lemma position_embd_fail:
  assumes "length tab < T"
  shows "mapM (embedding tab) (map int [0..<T]) = Inl IndexError"
proof (rule mapM_embedding_fail)
  from assms have "int (length tab) \<in> set (map int [0..<T])" by simp
  then show "\<not> list_all (\<lambda>i. 0 \<le> i \<and> i < int (length tab)) (map int [0..<T])"
    unfolding list_all_iff by fastforce
qed

lemma ncols_batch: "is_batch B T idx \<Longrightarrow> 0 < B \<Longrightarrow> ncols idx = T"
  by (cases idx) (simp_all add: is_batch_def ncols_def)

lemma wf_model_heads:
  assumes "wf_model m" "b \<in> set (blocks m)"
  shows "heads (sa b) \<noteq> []"
proof -
  from assms have "wf_block b" by (simp add: wf_model_def list_all_iff)
  then have "length (heads (sa b)) = n_head" by (simp add: wf_block_def)
  then show ?thesis by (auto simp: n_head_def)
qed

lemma length_embed:
  assumes "wf_model m" "length r = T" "T \<le> blocksize"
  shows "length (embed m T r) = T"
  using assms by (simp add: embed_def madd_def wf_model_def wf_mat_def)

lemma logits_of_ok:
  assumes wf: "wf_model m" and b: "is_batch B T idx" "0 < B" and T: "T \<le> blocksize"
    and v: "valid_ids m idx"
  shows "logits_of m idx = Inr (map (logits_seq m T) idx)"
proof -
  let ?x0 = "map (\<lambda>te. madd te (take T (position_embedding_table m)))
               (map (map (\<lambda>i. token_embedding_table m ! nat i)) idx)"
  have x0: "?x0 = map (embed m T) idx"
    by (simp add: embed_def comp_def)
  have pos: "mapM (embedding (position_embedding_table m)) (map int [0..<T]) =
             Inr (take T (position_embedding_table m))"
    using wf T by (intro position_embd_ok) (simp add: wf_model_def wf_mat_def)
  have each: "sequential (blocks m) x = Inr (seq_pure (blocks m) x)"
    if "x \<in> set (map (embed m T) idx)" for x
  proof -
    from that obtain r where r: "r \<in> set idx" "x = embed m T r" by auto
    with b have "length r = T" by (simp add: is_batch_def list_all_iff)
    with wf T r have "length x = T" by (simp add: length_embed)
    with T show ?thesis
      using wf_model_heads [OF wf] by (intro sequential_ok) simp_all
  qed
  then have X: "mapM (sequential (blocks m)) (map (embed m T) idx) =
                Inr (map (seq_pure (blocks m)) (map (embed m T) idx))"
    by (rule mapM_all_Inr)
  have "map (map (\<lambda>v. linear_fw (lm_head m) (layer_norm (ln_f m) v)))
          (map (seq_pure (blocks m)) (map (embed m T) idx)) = map (logits_seq m T) idx"
    by (simp add: logits_seq_def comp_def)
  then show ?thesis
    unfolding logits_of_def Let_def ncols_batch [OF b] token_embd_ok [OF v]
    using pos X by (simp add: x0 del: map_map)
qed

lemma forward_None:
  "forward m idx None = (case logits_of m idx of Inl e \<Rightarrow> Inl e | Inr L \<Rightarrow> Inr (T3 L, None))"
  by (simp add: forward_def split: sum.splits)

lemma wf_mat_seq_pure:
  assumes "list_all wf_block bs" "wf_mat T n_embd x"
  shows "wf_mat T n_embd (seq_pure bs x)"
  using assms
proof (induction bs arbitrary: x)
  case Nil
  then show ?case by simp
next
  case (Cons b bs)
  from Cons.prems have "wf_mat T n_embd (block_pure b x)"
    by (intro wf_mat_block_pure(2)) simp_all
  with Cons show ?case by simp
qed

lemma length_logits_seq:
  assumes "wf_model m" "length r = T" "T \<le> blocksize"
  shows "length (logits_seq m T r) = T"
  using assms by (simp add: logits_seq_def length_seq_pure length_embed)

lemma length_logits_row:
  assumes "wf_model m" "v \<in> set (logits_seq m T r)"
  shows "length v = vocab m"
  using assms
  by (auto simp: logits_seq_def wf_model_def wf_linear_def wf_mat_def linear_fw_def vadd_def
      linear_nb_def)

lemma logits_of_shape:
  assumes wf: "wf_model m" and b: "is_batch B T idx" "0 < B" and T: "T \<le> blocksize"
    and v: "valid_ids m idx"
  shows "logits_of m idx = Inr (map (logits_seq m T) idx)"
    and "length (map (logits_seq m T) idx) = B"
    and "list_all (\<lambda>r. length r = T \<and> list_all (\<lambda>v. length v = vocab m) r)
           (map (logits_seq m T) idx)"
proof -
  show "logits_of m idx = Inr (map (logits_seq m T) idx)"
    using assms by (rule logits_of_ok)
  show "length (map (logits_seq m T) idx) = B" using b by (simp add: is_batch_def)
  have "length (logits_seq m T r) = T \<and> list_all (\<lambda>v. length v = vocab m) (logits_seq m T r)"
    if "r \<in> set idx" for r
  proof -
    from that b have "length r = T" by (simp add: is_batch_def list_all_iff)
    with wf T have "length (logits_seq m T r) = T" by (intro length_logits_seq)
    moreover have "list_all (\<lambda>v. length v = vocab m) (logits_seq m T r)"
      using length_logits_row [OF wf] by (simp add: list_all_iff)
    ultimately show ?thesis by simp
  qed
  then show "list_all (\<lambda>r. length r = T \<and> list_all (\<lambda>v. length v = vocab m) r)
           (map (logits_seq m T) idx)"
    by (simp add: list_all_iff)
qed

lemma logits_of_rejects:
  assumes wf: "wf_model m" and b: "is_batch B T idx" "0 < B"
    and bad: "blocksize < T \<or> \<not> valid_ids m idx"
  shows "logits_of m idx = Inl IndexError"
proof (cases "valid_ids m idx")
  case False
  then show ?thesis
    by (simp add: logits_of_def token_embd_fail)
next
  case True
  with bad have "length (position_embedding_table m) < T"
    using wf by (simp add: wf_model_def wf_mat_def)
  then have "mapM (embedding (position_embedding_table m)) (map int [0..<T]) = Inl IndexError"
    by (rule position_embd_fail)
  then show ?thesis
    unfolding logits_of_def Let_def ncols_batch [OF b] token_embd_ok [OF True] by simp
qed

text \<open>
  Claim C6 (rejection). On a batch of at least one sequence, a forward pass with more
  than \<open>blocksize\<close> positions, or with a token id outside \<open>[0, vocab_size)\<close>, raises
  \<open>IndexError\<close> from the embedding lookup, with or without targets: nothing is truncated
  and no id is wrapped.
\<close>

theorem forward_rejects:
  assumes "wf_model m" "is_batch B T idx" "0 < B"
    and "blocksize < T \<or> \<not> valid_ids m idx"
  shows "forward m idx targets = Inl IndexError"
  using logits_of_rejects [OF assms] by (simp add: forward_def)

theorem forward_rejects_witness:
  "wf_model model_ex \<and> is_batch 1 2 idx_bad \<and> \<not> valid_ids model_ex idx_bad \<and>
   forward model_ex idx_bad None = Inl IndexError \<and>
   is_batch 1 33 idx_long \<and> blocksize < 33 \<and> valid_ids model_ex idx_long \<and>
   forward model_ex idx_long None = Inl IndexError"
proof -
  have h1: "is_batch 1 2 idx_bad" by (simp add: is_batch_def idx_bad_def)
  have h2: "\<not> valid_ids model_ex idx_bad" by (simp add: valid_ids_def vocab_ex idx_bad_def)
  have h3: "is_batch 1 33 idx_long" by (simp add: is_batch_def idx_long_def)
  have h4: "blocksize < 33" by (simp add: blocksize_def)
  have h5: "valid_ids model_ex idx_long"
    by (simp add: valid_ids_def vocab_ex idx_long_def list_all_iff)
  have h0: "(0::nat) < 1" by simp
  have "forward model_ex idx_bad None = Inl IndexError"
    using h2 by (intro forward_rejects [OF wf_model_ex h1 h0]) simp
  moreover have "forward model_ex idx_long None = Inl IndexError"
    using h4 by (intro forward_rejects [OF wf_model_ex h3 h0]) simp
  ultimately show ?thesis using wf_model_ex h1 h2 h3 h4 h5 by (intro conjI)
qed

section \<open>Shape of the logits and the loss\<close>

lemma length_concat_uniform:
  "list_all (\<lambda>r. length r = T) L \<Longrightarrow> length (concat L) = length L * T"
  by (induction L) simp_all

lemma ncols_uniform: "L \<noteq> [] \<Longrightarrow> list_all (\<lambda>r. length r = T) L \<Longrightarrow> ncols L = T"
  by (cases L) (simp_all add: ncols_def)

lemma nth_concat_uniform:
  "list_all (\<lambda>r. length r = T) L \<Longrightarrow> b < length L \<Longrightarrow> i < T \<Longrightarrow>
   concat L ! (b * T + i) = L ! b ! i"
proof (induction L arbitrary: b)
  case Nil
  then show ?case by simp
next
  case (Cons r L)
  show ?case
  proof (cases b)
    case 0
    with Cons.prems show ?thesis by (simp add: nth_append)
  next
    case (Suc b')
    with Cons.prems have "concat L ! (b' * T + i) = L ! b' ! i"
      by (intro Cons.IH) simp_all
    moreover from Cons.prems have "length r = T" by simp
    ultimately show ?thesis using Suc by (simp add: nth_append)
  qed
qed

lemma nth_concat_divmod:
  assumes "list_all (\<lambda>r. length r = T) L" "k < length L * T"
  shows "concat L ! k = L ! (k div T) ! (k mod T)"
proof -
  from assms(2) have T: "0 < T" by (cases T) simp_all
  from assms(2) have b: "k div T < length L"
    by (simp add: less_mult_imp_div_less)
  have "concat L ! (k div T * T + k mod T) = L ! (k div T) ! (k mod T)"
    using assms(1) b T by (intro nth_concat_uniform) simp_all
  then show ?thesis by simp
qed

lemma cross_entropy_ok:
  assumes len: "length lg = length tg" and ne: "lg \<noteq> []"
    and V: "list_all (\<lambda>v. length v = V) lg"
    and t: "list_all (\<lambda>t. 0 \<le> t \<and> t < int V) tg"
  shows "cross_entropy lg tg =
         Inr (fdiv (fsum (map (\<lambda>k. nll (lg ! k) (tg ! k)) [0..<length lg]))
                (Fin (real (length lg))))"
proof -
  have C: "ncols lg = V" using ne V by (rule ncols_uniform)
  have all: "\<forall>p \<in> set (zip lg tg). snd p \<noteq> - 100 \<and> \<not> (snd p < 0 \<or> int V \<le> snd p)"
  proof
    fix p assume "p \<in> set (zip lg tg)"
    then have "snd p \<in> set tg" by (metis prod.collapse set_zip_rightD)
    with t show "snd p \<noteq> - 100 \<and> \<not> (snd p < 0 \<or> int V \<le> snd p)"
      by (auto simp: list_all_iff)
  qed
  then have k: "filter (\<lambda>(l, t). t \<noteq> - 100) (zip lg tg) = zip lg tg"
    by (intro filter_True) auto
  have ex: "\<not> list_ex (\<lambda>(l, t). t < 0 \<or> int V \<le> t) (zip lg tg)"
    using all by (auto simp: list_ex_iff)
  have z: "map (\<lambda>(l, t). nll l t) (zip lg tg) = map (\<lambda>k. nll (lg ! k) (tg ! k)) [0..<length lg]"
    using len by (intro nth_equalityI) simp_all
  show ?thesis
    unfolding cross_entropy_def Let_def k C using len ex by (simp add: z)
qed

lemma forward_Some_ok:
  assumes L: "logits_of m idx = Inr L" and lL: "length L = B"
    and sh: "list_all (\<lambda>r. length r = T \<and> list_all (\<lambda>v. length v = V) r) L"
    and B: "0 < B" and T: "0 < T"
    and tg: "is_batch B T (t_rows tg)" "list_all (list_all (\<lambda>t. 0 \<le> t \<and> t < int V)) (t_rows tg)"
    and mg: "mergeable tg"
  shows "forward m idx (Some tg) =
         Inr (T2 (concat L),
              Some (fdiv (fsum (map (\<lambda>k. nll (L ! (k div T) ! (k mod T))
                                         (t_rows tg ! (k div T) ! (k mod T))) [0..<B * T]))
                     (Fin (real (B * T)))))"
proof -
  have rows: "list_all (\<lambda>r. length r = T) L" using sh by (simp add: list_all_iff)
  have ne: "L \<noteq> []" using lL B by auto
  have nc: "ncols L = T" using ne rows by (rule ncols_uniform)
  have lc: "length (concat L) = B * T" using rows lL by (simp add: length_concat_uniform)
  have trows: "list_all (\<lambda>r. length r = T) (t_rows tg)" "length (t_rows tg) = B"
    using tg(1) by (simp_all add: is_batch_def)
  have lt: "length (concat (t_rows tg)) = B * T"
    using trows by (simp add: length_concat_uniform)
  have v1: "view1 (B * T) tg = Inr (concat (t_rows tg))" by (simp add: view1_def lt mg)
  have "0 < length (concat L)" using lc B T by simp
  then have cne: "concat L \<noteq> []" by (rule iffD1 [OF length_greater_0_conv])
  have cV: "list_all (\<lambda>v. length v = V) (concat L)"
    using sh by (auto simp: list_all_iff)
  have ct: "list_all (\<lambda>t. 0 \<le> t \<and> t < int V) (concat (t_rows tg))"
    using tg(2) by (auto simp: list_all_iff)
  have "cross_entropy (concat L) (concat (t_rows tg)) =
        Inr (fdiv (fsum (map (\<lambda>k. nll (concat L ! k) (concat (t_rows tg) ! k))
                           [0..<length (concat L)]))
               (Fin (real (length (concat L)))))"
    using cne cV ct by (intro cross_entropy_ok) (simp add: lc lt)
  moreover have "map (\<lambda>k. nll (concat L ! k) (concat (t_rows tg) ! k)) [0..<B * T] =
        map (\<lambda>k. nll (L ! (k div T) ! (k mod T)) (t_rows tg ! (k div T) ! (k mod T))) [0..<B * T]"
  proof (rule map_cong [OF refl])
    fix k assume "k \<in> set [0..<B * T]"
    then have k: "k < B * T" by simp
    have "concat L ! k = L ! (k div T) ! (k mod T)"
      using rows k lL by (intro nth_concat_divmod) simp_all
    moreover have "concat (t_rows tg) ! k = t_rows tg ! (k div T) ! (k mod T)"
      using trows k by (intro nth_concat_divmod) simp_all
    ultimately show "nll (concat L ! k) (concat (t_rows tg) ! k) =
        nll (L ! (k div T) ! (k mod T)) (t_rows tg ! (k div T) ! (k mod T))"
      by simp
  qed
  ultimately have ce: "cross_entropy (concat L) (concat (t_rows tg)) =
        Inr (fdiv (fsum (map (\<lambda>k. nll (L ! (k div T) ! (k mod T))
                                    (t_rows tg ! (k div T) ! (k mod T))) [0..<B * T]))
               (Fin (real (B * T))))"
    by (simp only: lc)
  show ?thesis
    unfolding forward_def L Let_def by (simp add: lL nc v1 ce)
qed

lemma forward_shapes:
  assumes wf: "wf_model m" and b: "is_batch B T idx" "0 < B" and T: "0 < T" "T \<le> blocksize"
    and v: "valid_ids m idx"
  shows "\<exists>L. forward m idx None = Inr (T3 L, None) \<and> has_shape (T3 L) [B, T, vocab m] \<and>
           has_shape (T2 (concat L)) [B * T, vocab m] \<and>
           (\<forall>b<B. \<forall>t<T. concat L ! (b * T + t) = L ! b ! t) \<and>
           (\<forall>tg. is_batch B T (t_rows tg) \<and> valid_ids m (t_rows tg) \<and> mergeable tg \<longrightarrow>
              forward m idx (Some tg) =
                Inr (T2 (concat L),
                     Some (fdiv (fsum (map (\<lambda>k. nll (L ! (k div T) ! (k mod T))
                                         (t_rows tg ! (k div T) ! (k mod T))) [0..<B * T]))
                     (Fin (real (B * T))))))"
proof -
  let ?L = "map (logits_seq m T) idx"
  note sh0 = logits_of_shape [OF wf b T(2) v]
  have L: "logits_of m idx = Inr ?L" by (rule sh0(1))
  have lL: "length ?L = B" by (rule sh0(2))
  have sh: "list_all (\<lambda>r. length r = T \<and> list_all (\<lambda>v. length v = vocab m) r) ?L"
    by (rule sh0(3))
  have n: "forward m idx None = Inr (T3 ?L, None)" using L by (simp add: forward_None)
  have s3: "has_shape (T3 ?L) [B, T, vocab m]" using lL sh by simp
  have rows: "list_all (\<lambda>r. length r = T) ?L" using sh by (simp add: list_all_iff)
  have s2: "has_shape (T2 (concat ?L)) [B * T, vocab m]"
    using sh lL length_concat_uniform [OF rows] by (auto simp: list_all_iff)
  have fl: "\<forall>b<B. \<forall>t<T. concat ?L ! (b * T + t) = ?L ! b ! t"
    using rows lL by (intro allI impI nth_concat_uniform) simp_all
  have "forward m idx (Some tg) =
                Inr (T2 (concat ?L),
                     Some (fdiv (fsum (map (\<lambda>k. nll (?L ! (k div T) ! (k mod T))
                                         (t_rows tg ! (k div T) ! (k mod T))) [0..<B * T]))
                     (Fin (real (B * T)))))"
    if "is_batch B T (t_rows tg) \<and> valid_ids m (t_rows tg) \<and> mergeable tg" for tg
    using that by (intro forward_Some_ok [OF L lL sh b(2) T(1)]) (simp_all add: valid_ids_def)
  with n s3 s2 fl show ?thesis by blast
qed

lemma ex_hyps:
  "is_batch 1 2 idx_ex" "valid_ids model_ex idx_ex" "is_batch 1 2 (t_rows targets_ex)"
  "valid_ids model_ex (t_rows targets_ex)" "(2::nat) \<le> blocksize" "mergeable targets_ex"
  by (simp_all add: is_batch_def valid_ids_def vocab_ex idx_ex_def targets_ex_def blocksize_def
      mergeable_def)

text \<open>
  Claim C3 (shape of the logits), as amended. For a valid batch of shape \<open>(B, T)\<close> with
  \<open>B \<ge> 1\<close> and \<open>1 \<le> T \<le> blocksize\<close>, the forward pass without targets returns logits \<open>L\<close>
  of shape \<open>(B, T, vocab_size)\<close>; with valid targets of shape \<open>(B, T)\<close> whose two axes can
  be merged by \<open>view\<close> (a contiguous tensor), it returns the same values flattened for the
  loss, of shape \<open>(B * T, vocab_size)\<close>: row \<open>b * T + t\<close> of the result is \<open>L[b, t]\<close>.
\<close>

theorem forward_logits_shape:
  assumes "wf_model m" "is_batch B T idx" "0 < B" "0 < T" "T \<le> blocksize" "valid_ids m idx"
  shows "\<exists>L. forward m idx None = Inr (T3 L, None) \<and> has_shape (T3 L) [B, T, vocab m] \<and>
           (\<forall>tg. is_batch B T (t_rows tg) \<and> valid_ids m (t_rows tg) \<and> mergeable tg \<longrightarrow>
              (\<exists>G l. forward m idx (Some tg) = Inr (T2 G, Some l) \<and>
                 has_shape (T2 G) [B * T, vocab m] \<and> G = concat L \<and>
                 (\<forall>b<B. \<forall>t<T. G ! (b * T + t) = L ! b ! t)))"
proof -
  from forward_shapes [OF assms] obtain L where
    L: "forward m idx None = Inr (T3 L, None)" "has_shape (T3 L) [B, T, vocab m]"
       "has_shape (T2 (concat L)) [B * T, vocab m]"
       "\<forall>b<B. \<forall>t<T. concat L ! (b * T + t) = L ! b ! t"
       "\<And>tg. is_batch B T (t_rows tg) \<and> valid_ids m (t_rows tg) \<and> mergeable tg \<Longrightarrow>
          \<exists>l. forward m idx (Some tg) = Inr (T2 (concat L), Some l)"
    by blast
  have "\<exists>G l. forward m idx (Some tg) = Inr (T2 G, Some l) \<and>
                 has_shape (T2 G) [B * T, vocab m] \<and> G = concat L \<and>
                 (\<forall>b<B. \<forall>t<T. G ! (b * T + t) = L ! b ! t)"
    if "is_batch B T (t_rows tg) \<and> valid_ids m (t_rows tg) \<and> mergeable tg" for tg
  proof -
    from L(5) [OF that] obtain l where
      "forward m idx (Some tg) = Inr (T2 (concat L), Some l)" ..
    with L(3,4) show ?thesis by blast
  qed
  with L(1,2) show ?thesis by blast
qed

theorem forward_logits_shape_witness:
  "wf_model model_ex \<and> is_batch 1 2 idx_ex \<and> 2 \<le> blocksize \<and> valid_ids model_ex idx_ex \<and>
   is_batch 1 2 (t_rows targets_ex) \<and> valid_ids model_ex (t_rows targets_ex) \<and>
   mergeable targets_ex \<and>
   (\<exists>L. forward model_ex idx_ex None = Inr (T3 L, None) \<and> has_shape (T3 L) [1, 2, 2] \<and>
      (\<exists>G l. forward model_ex idx_ex (Some targets_ex) = Inr (T2 G, Some l) \<and>
         has_shape (T2 G) [2, 2] \<and> G = concat L \<and> G ! 0 = L ! 0 ! 0 \<and> G ! 1 = L ! 0 ! 1))"
proof -
  have h0: "(0::nat) < 1" "(0::nat) < 2" by simp_all
  from forward_logits_shape [OF wf_model_ex ex_hyps(1) h0 ex_hyps(5) ex_hyps(2)]
  obtain L where
    L: "forward model_ex idx_ex None = Inr (T3 L, None)"
       "has_shape (T3 L) [1, 2, vocab model_ex]"
       "\<And>tg. is_batch 1 2 (t_rows tg) \<and> valid_ids model_ex (t_rows tg) \<and> mergeable tg \<Longrightarrow>
          \<exists>G l. forward model_ex idx_ex (Some tg) = Inr (T2 G, Some l) \<and>
                 has_shape (T2 G) [1 * 2, vocab model_ex] \<and> G = concat L \<and>
                 (\<forall>b<1. \<forall>t<2. G ! (b * 2 + t) = L ! b ! t)"
    by blast
  from L(3) [of targets_ex] ex_hyps(3,4,6) obtain G l where
    G: "forward model_ex idx_ex (Some targets_ex) = Inr (T2 G, Some l)"
       "has_shape (T2 G) [1 * 2, vocab model_ex]" "G = concat L"
       "\<forall>b<1. \<forall>t<2. G ! (b * 2 + t) = L ! b ! t"
    by blast
  from G(4) have "G ! (0 * 2 + 0) = L ! 0 ! 0" "G ! (0 * 2 + 1) = L ! 0 ! 1" by simp_all
  then have "G ! 0 = L ! 0 ! 0" "G ! 1 = L ! 0 ! 1" by simp_all
  with L(1,2) G(1,2,3) have
    "\<exists>L. forward model_ex idx_ex None = Inr (T3 L, None) \<and> has_shape (T3 L) [1, 2, 2] \<and>
      (\<exists>G l. forward model_ex idx_ex (Some targets_ex) = Inr (T2 G, Some l) \<and>
         has_shape (T2 G) [2, 2] \<and> G = concat L \<and> G ! 0 = L ! 0 ! 0 \<and> G ! 1 = L ! 0 ! 1)"
    by (intro exI [of _ L] exI [of _ G] exI [of _ l]) (simp add: vocab_ex)
  with wf_model_ex ex_hyps show ?thesis by (intro conjI)
qed

text \<open>The claim as stated fails when targets are supplied: on a batch of shape \<open>(1, 2)\<close>
  with targets the returned logits have shape \<open>(2, 2)\<close>, not \<open>(1, 2, 2)\<close>.\<close>

theorem forward_logits_shape_targets_ex:
  "vocab model_ex = 2 \<and> is_batch 1 2 idx_ex \<and>
   (\<exists>G l. forward model_ex idx_ex (Some targets_ex) = Inr (G, l) \<and>
     has_shape G [2, 2] \<and> \<not> has_shape G [1, 2, 2])"
proof -
  have h0: "(0::nat) < 1" "(0::nat) < 2" by simp_all
  from forward_shapes [OF wf_model_ex ex_hyps(1) h0 ex_hyps(5) ex_hyps(2)] ex_hyps(3,4,6)
  obtain L l where "forward model_ex idx_ex (Some targets_ex) = Inr (T2 (concat L), l)"
    "has_shape (T2 (concat L)) [1 * 2, vocab model_ex]"
    by blast
  then have "\<exists>G l. forward model_ex idx_ex (Some targets_ex) = Inr (G, l) \<and>
     has_shape G [2, 2] \<and> \<not> has_shape G [1, 2, 2]"
    by (intro exI [of _ "T2 (concat L)"] exI [of _ l]) (simp add: vocab_ex)
  with vocab_ex ex_hyps(1) show ?thesis by (intro conjI)
qed

subsection \<open>The cross-entropy of finite logits\<close>

lemma sum_list_exp_pos: "as \<noteq> [] \<Longrightarrow> 0 < (\<Sum>a\<leftarrow>as. exp (a::real))"
proof (induction as)
  case Nil
  then show ?case by simp
next
  case (Cons a as)
  have "0 < exp a" by simp
  moreover have "0 \<le> (\<Sum>a\<leftarrow>as. exp a)" by (induction as) simp_all
  ultimately have "0 < exp a + (\<Sum>a\<leftarrow>as. exp a)" by (rule add_pos_nonneg)
  then show ?case by simp
qed

lemma sum_list_exp_shift:
  "(\<Sum>a\<leftarrow>as. exp (a - m)) = (\<Sum>a\<leftarrow>as. exp (a::real)) / exp m"
  by (induction as) (simp_all add: exp_diff add_divide_distrib)

lemma row_max_Fin:
  assumes "as \<noteq> []"
  shows "\<exists>m. foldl fmax NInf (map Fin as) = Fin m \<and> m \<in> set as \<and> (\<forall>a \<in> set as. a \<le> m)"
proof -
  from assms obtain a0 where a0: "a0 \<in> set as" by (cases as) auto
  have r: "list_all fin_or_ninf (map Fin as)" by (simp add: list_all_iff fin_or_ninf_def)
  from a0 have "Fin a0 \<in> set (map Fin as)" by simp
  from row_max [OF r this] show ?thesis by auto
qed

lemma nll_exact:
  assumes b: "list_all (\<lambda>a. \<bar>a\<bar> \<le> 10 ^ 38) as" and c: "c < length as"
    and len: "real (length as) \<le> 10 ^ 38"
  shows "nll (map Fin as) (int c) = Fin (- ln (exp (as ! c) / (\<Sum>a\<leftarrow>as. exp a)))"
proof -
  from c have ne: "as \<noteq> []" by auto
  from row_max_Fin [OF ne] obtain m where
    m: "foldl fmax NInf (map Fin as) = Fin m" "m \<in> set as" "\<And>a. a \<in> set as \<Longrightarrow> a \<le> m"
    by blast
  have bd: "\<bar>a\<bar> \<le> 10 ^ 38" if "a \<in> set as" for a
    using that b by (simp add: list_all_iff)
  have big: "(3::real) * 10 ^ 38 \<le> max_float" by (simp add: max_float_def)
  have d: "a - m \<le> 0" "- (2 * 10 ^ 38) \<le> a - m" if "a \<in> set as" for a
    using m(3) [OF that] bd [OF that] bd [OF m(2)] by linarith+
  have sub: "fsub (Fin a) (Fin m) = Fin (a - m)" if "a \<in> set as" for a
  proof -
    from d [OF that] big have "\<bar>a - m\<bar> \<le> max_float" by linarith
    then show ?thesis by (simp add: fsub_def rnd_in_range)
  qed
  then have sh: "map (\<lambda>x. fsub x (Fin m)) (map Fin as) = map (\<lambda>a. Fin (a - m)) as"
    by simp
  have ex: "fexp (Fin (a - m)) = Fin (exp (a - m))" if "a \<in> set as" for a
  proof -
    from d(1) [OF that] have "exp (a - m) \<le> 1" by simp
    then have "exp (a - m) \<le> max_float" using one_le_max_float by (rule order_trans)
    then have "\<bar>exp (a - m)\<bar> \<le> max_float" by simp
    then show ?thesis by (simp add: rnd_in_range)
  qed
  then have e: "map fexp (map (\<lambda>a. Fin (a - m)) as) = map Fin (map (\<lambda>a. exp (a - m)) as)"
    by simp
  let ?es = "map (\<lambda>a. exp (a - m)) as"
  let ?s = "sum_list ?es"
  have nn: "list_all (\<lambda>e. 0 \<le> e) ?es" by (simp add: list_all_iff)
  have le1: "list_all (\<lambda>e. e \<le> 1) ?es" using d(1) by (simp add: list_all_iff)
  have sl: "?s \<le> real (length as)" using sum_list_le_length [OF le1] by simp
  with len big have sm: "?s \<le> max_float" by linarith
  have S: "fsum (map Fin ?es) = Fin ?s" using nn sm by (rule fsum_Fin)
  have "exp (m - m) \<in> (\<lambda>a. exp (a - m)) ` set as" using m(2) by (rule imageI)
  then have "exp (m - m) \<in> set ?es" by simp
  then have s1: "1 \<le> ?s" using member_le_sum_list_real [OF nn, of "exp (m - m)"] by simp
  have ln0: "0 \<le> ln ?s" using s1 by simp
  have lns: "ln ?s \<le> ?s" using s1 ln_le_minus_one [of ?s] by simp
  have "\<bar>ln ?s\<bar> \<le> max_float" using ln0 lns sm by linarith
  then have L: "fln (Fin ?s) = Fin (ln ?s)" using s1 by (simp add: rnd_in_range)
  have ls: "log_softmax (map Fin as) = map (\<lambda>a. fsub (Fin (a - m)) (Fin (ln ?s))) as"
    unfolding log_softmax_def Let_def m(1) sh e S L by (simp add: comp_def)
  have ac: "as ! c \<in> set as" using c by simp
  have "\<bar>as ! c - m - ln ?s\<bar> \<le> max_float"
    using d [OF ac] ln0 lns sl len big by linarith
  then have "fsub (Fin (as ! c - m)) (Fin (ln ?s)) = Fin (as ! c - m - ln ?s)"
    by (simp add: fsub_def rnd_in_range)
  with c have n: "nll (map Fin as) (int c) = Fin (- (as ! c - m - ln ?s))"
    by (simp add: nll_def ls)
  have pos: "0 < (\<Sum>a\<leftarrow>as. exp a)" using ne by (rule sum_list_exp_pos)
  have "?s = (\<Sum>a\<leftarrow>as. exp a) / exp m" by (rule sum_list_exp_shift)
  then have "ln ?s = ln (\<Sum>a\<leftarrow>as. exp a) - m" using pos by (simp add: ln_div)
  moreover have "ln (exp (as ! c) / (\<Sum>a\<leftarrow>as. exp a)) = as ! c - ln (\<Sum>a\<leftarrow>as. exp a)"
    using pos by (simp add: ln_div)
  ultimately show ?thesis using n by simp
qed

text \<open>
  Claim C7 (loss), as amended. For a valid batch of shape \<open>(B, T)\<close> and valid targets of
  the same shape whose two axes can be merged by \<open>view\<close> (a contiguous tensor), the
  forward pass with the targets returns the logits flattened to \<open>B * T\<close> rows and, as the
  loss, the mean over all \<open>B * T\<close> flattened positions of the cross-entropy of the logits
  at the position against its target: the sum of the \<open>B * T\<close> terms in row-major order,
  divided by \<open>B * T\<close>. Where the logits of a position are finite and at most \<open>1e38\<close> in
  absolute value, the term is the negative logarithm of the softmax probability of the
  target. Without targets the forward pass returns no loss and raises nothing.
\<close>

theorem forward_loss:
  assumes "wf_model m" "is_batch B T idx" "0 < B" "0 < T" "T \<le> blocksize" "valid_ids m idx"
    and "is_batch B T (t_rows tg)" "valid_ids m (t_rows tg)" "mergeable tg"
  shows "\<exists>L. forward m idx None = Inr (T3 L, None) \<and>
           forward m idx (Some tg) =
             Inr (T2 (concat L),
                  Some (fdiv (fsum (map (\<lambda>k. nll (L ! (k div T) ! (k mod T))
                                             (t_rows tg ! (k div T) ! (k mod T))) [0..<B * T]))
                         (Fin (real (B * T))))) \<and>
           (\<forall>b<B. \<forall>t<T. \<forall>as.
              L ! b ! t = map Fin as \<and> list_all (\<lambda>a. \<bar>a\<bar> \<le> 10 ^ 38) as \<and>
              real (vocab m) \<le> 10 ^ 38 \<longrightarrow>
              nll (L ! b ! t) (t_rows tg ! b ! t) =
                Fin (- ln (exp (as ! nat (t_rows tg ! b ! t)) / (\<Sum>a\<leftarrow>as. exp a))))"
proof -
  from forward_shapes [OF assms(1-6)] assms(7,8,9) obtain L where
    L: "forward m idx None = Inr (T3 L, None)" "has_shape (T3 L) [B, T, vocab m]"
       "forward m idx (Some tg) =
             Inr (T2 (concat L),
                  Some (fdiv (fsum (map (\<lambda>k. nll (L ! (k div T) ! (k mod T))
                                             (t_rows tg ! (k div T) ! (k mod T))) [0..<B * T]))
                         (Fin (real (B * T)))))"
    by blast
  have "nll (L ! b ! t) (t_rows tg ! b ! t) =
          Fin (- ln (exp (as ! nat (t_rows tg ! b ! t)) / (\<Sum>a\<leftarrow>as. exp a)))"
    if bt: "b < B" "t < T"
      and as: "L ! b ! t = map Fin as \<and> list_all (\<lambda>a. \<bar>a\<bar> \<le> 10 ^ 38) as \<and>
               real (vocab m) \<le> 10 ^ 38"
    for b t as
  proof -
    from L(2) bt have "length (L ! b ! t) = vocab m"
      by (simp add: list_all_length)
    with as have la: "length as = vocab m" by simp
    from assms(7,8) bt have "0 \<le> t_rows tg ! b ! t \<and> t_rows tg ! b ! t < int (vocab m)"
      by (simp add: is_batch_def valid_ids_def list_all_length)
    then have c: "nat (t_rows tg ! b ! t) < length as" "int (nat (t_rows tg ! b ! t)) = t_rows tg ! b ! t"
      using la by (simp_all add: nat_less_iff)
    from as la have "real (length as) \<le> 10 ^ 38" by simp
    from nll_exact [OF _ c(1) this] as c(2) show ?thesis by simp
  qed
  with L(1,3) show ?thesis by blast
qed

theorem forward_loss_witness:
  "wf_model model_ex \<and> is_batch 1 2 idx_ex \<and> 2 \<le> blocksize \<and> valid_ids model_ex idx_ex \<and>
   is_batch 1 2 (t_rows targets_ex) \<and> valid_ids model_ex (t_rows targets_ex) \<and>
   mergeable targets_ex \<and>
   (\<exists>L. forward model_ex idx_ex None = Inr (T3 L, None) \<and>
        forward model_ex idx_ex (Some targets_ex) =
          Inr (T2 (concat L),
               Some (fdiv (fsum (map (\<lambda>k. nll (L ! (k div 2) ! (k mod 2))
                                          (t_rows targets_ex ! (k div 2) ! (k mod 2))) [0..<1 * 2]))
                      (Fin (real (1 * 2::nat))))))"
proof -
  have h0: "(0::nat) < 1" "(0::nat) < 2" by simp_all
  from forward_loss [OF wf_model_ex ex_hyps(1) h0 ex_hyps(5) ex_hyps(2) ex_hyps(3) ex_hyps(4)
      ex_hyps(6)]
  have "\<exists>L. forward model_ex idx_ex None = Inr (T3 L, None) \<and>
        forward model_ex idx_ex (Some targets_ex) =
          Inr (T2 (concat L),
               Some (fdiv (fsum (map (\<lambda>k. nll (L ! (k div 2) ! (k mod 2))
                                          (t_rows targets_ex ! (k div 2) ! (k mod 2))) [0..<1 * 2]))
                      (Fin (real (1 * 2::nat)))))"
    by blast
  with wf_model_ex ex_hyps show ?thesis by (intro conjI)
qed

lemma sq_hyps:
  "is_batch 2 2 idx_sq" "valid_ids model_ex idx_sq" "is_batch 2 2 (t_rows targets_tr)"
  "valid_ids model_ex (t_rows targets_tr)" "\<not> mergeable targets_tr"
  by (simp_all add: is_batch_def valid_ids_def vocab_ex idx_sq_def targets_tr_def
      mergeable_def ncols_def)

text \<open>The claim as stated fails on targets that are not contiguous: on a valid batch of
  shape \<open>(2, 2)\<close> with valid targets of that shape that are a transposed tensor,
  \<open>targets.view(B*T)\<close> raises and no loss is returned.\<close>

theorem forward_loss_strided_ex:
  "wf_model model_ex \<and> is_batch 2 2 idx_sq \<and> valid_ids model_ex idx_sq \<and>
   is_batch 2 2 (t_rows targets_tr) \<and> valid_ids model_ex (t_rows targets_tr) \<and>
   forward model_ex idx_sq (Some targets_tr) = Inl RuntimeError"
proof -
  have h0: "(0::nat) < 2" "(2::nat) \<le> blocksize" by (simp_all add: blocksize_def)
  note sh = logits_of_shape [OF wf_model_ex sq_hyps(1) h0(1) h0(2) sq_hyps(2)]
  let ?L = "map (logits_seq model_ex 2) idx_sq"
  have rows: "list_all (\<lambda>r. length r = 2) ?L" using sh(3) by (simp add: list_all_iff)
  have ne: "?L \<noteq> []" by (simp add: idx_sq_def)
  have nc: "ncols ?L = 2" using ne rows by (rule ncols_uniform)
  have "view1 (2 * 2) targets_tr = Inl RuntimeError"
    using sq_hyps(5) by (simp add: view1_def) (simp add: targets_tr_def)
  then have "forward model_ex idx_sq (Some targets_tr) = Inl RuntimeError"
    unfolding forward_def sh(1) Let_def using sh(2) nc by simp
  with wf_model_ex sq_hyps(1-4) show ?thesis by (intro conjI)
qed

section \<open>Zero rows through the layers\<close>

lemma is_fin_conv: "is_fin x \<longleftrightarrow> (\<exists>a. x = Fin a)"
  by (cases x) simp_all

lemma map2_fmul_zero_left:
  assumes "list_all is_fin w"
  shows "list_all (\<lambda>x. x = Fin 0) (map2 fmul (replicate n (Fin 0)) w)"
  unfolding list_all_iff
proof
  fix x assume "x \<in> set (map2 fmul (replicate n (Fin 0)) w)"
  then obtain a b where ab: "(a, b) \<in> set (zip (replicate n (Fin 0)) w)" "x = fmul a b"
    by auto
  from ab(1) have "a \<in> set (replicate n (Fin 0))" by (rule set_zip_leftD)
  then have a: "a = Fin 0" by simp
  from ab(1) have "b \<in> set w" by (rule set_zip_rightD)
  with assms obtain r where "b = Fin r" by (auto simp: list_all_iff is_fin_conv)
  with a ab(2) show "x = Fin 0" by (simp add: rnd_0)
qed

lemma map2_fmul_zero_right:
  assumes "list_all is_fin u"
  shows "list_all (\<lambda>x. x = Fin 0) (map2 fmul u (replicate n (Fin 0)))"
  unfolding list_all_iff
proof
  fix x assume "x \<in> set (map2 fmul u (replicate n (Fin 0)))"
  then obtain a b where ab: "(a, b) \<in> set (zip u (replicate n (Fin 0)))" "x = fmul a b"
    by auto
  from ab(1) have "b \<in> set (replicate n (Fin 0))" by (rule set_zip_rightD)
  then have b: "b = Fin 0" by simp
  from ab(1) have "a \<in> set u" by (rule set_zip_leftD)
  with assms obtain r where "a = Fin r" by (auto simp: list_all_iff is_fin_conv)
  with b ab(2) show "x = Fin 0" by (simp add: rnd_0)
qed

lemma dot_zero_left: "list_all is_fin w \<Longrightarrow> dot (replicate n (Fin 0)) w = Fin 0"
  unfolding dot_def by (rule fsum_zeros) (rule map2_fmul_zero_left)

lemma dot_zero_right: "list_all is_fin u \<Longrightarrow> dot u (replicate n (Fin 0)) = Fin 0"
  unfolding dot_def by (rule fsum_zeros) (rule map2_fmul_zero_right)

lemma all_zero_replicate:
  "list_all (\<lambda>x. x = a) xs \<Longrightarrow> xs = replicate (length xs) a"
  by (induction xs) simp_all

lemma linear_nb_zero:
  assumes "fin_mat W"
  shows "linear_nb W (replicate n (Fin 0)) = replicate (length W) (Fin 0)"
proof -
  have "list_all (\<lambda>x. x = Fin 0) (linear_nb W (replicate n (Fin 0)))"
    using assms by (simp add: linear_nb_def list_all_iff fin_mat_def dot_zero_left)
  from all_zero_replicate [OF this] show ?thesis by (simp add: length_linear_nb)
qed

lemma linear_ex_fin:
  assumes "list_all is_fin v"
  shows "linear_fw (linear_ex i out) v = replicate out (Fin 0)"
proof -
  have "linear_nb (replicate out (replicate i (Fin 0))) v = replicate out (Fin 0)"
    using assms by (simp add: linear_nb_def dot_zero_right)
  then show ?thesis
    by (simp add: linear_fw_def linear_ex_def vadd_def zip_replicate rnd_0)
qed

lemma is_fin_replicate: "list_all is_fin (replicate n (Fin a))"
  by (simp add: list_all_iff)

lemma mean_zero: "0 < n \<Longrightarrow> mean (replicate n (Fin 0)) = Fin 0"
proof -
  assume n: "0 < n"
  have "fsum (replicate n (Fin 0)) = Fin 0"
    by (rule fsum_zeros) (simp add: list_all_iff)
  with n show ?thesis by (simp add: mean_def rnd_0)
qed

lemma fsub_0_0: "fsub (Fin 0) (Fin 0) = Fin 0"
  by (simp add: fsub_def rnd_0)

lemma var_zero: "0 < n \<Longrightarrow> var (replicate n (Fin 0)) = Fin 0"
  by (simp add: var_def mean_zero fsub_0_0 rnd_0 fsub_def)

lemma layer_norm_zero:
  assumes "zero_ln p"
  shows "layer_norm p (replicate n_embd (Fin 0)) = replicate n_embd (Fin 0)"
proof -
  have n: "0 < n_embd" by (simp add: n_embd_def)
  have e: "rnd (1 / 100000) = Fin (1 / 100000)"
    by (simp add: rnd_def max_float_def)
  have d: "fdiv (Fin 0) (fsqrt (rnd (1 / 100000))) = Fin 0"
    by (simp add: e rnd_0)
  have f: "map (\<lambda>a. fdiv (fsub a (mean (replicate n_embd (Fin 0))))
                 (fsqrt (fadd (var (replicate n_embd (Fin 0))) (Fin (1 / 100000)))))
             (replicate n_embd (Fin 0)) = replicate n_embd (Fin 0)"
    using n by (simp add: mean_zero [OF n] var_zero [OF n] fsub_0_0 d)
  from assms have w: "list_all is_fin (ln_weight p)" "length (ln_weight p) = n_embd"
    "ln_bias p = replicate n_embd (Fin 0)"
    by (simp_all add: zero_ln_def)
  have "list_all (\<lambda>x. x = Fin 0) (map2 fmul (replicate n_embd (Fin 0)) (ln_weight p))"
    using w(1) by (rule map2_fmul_zero_left)
  from all_zero_replicate [OF this] w(2)
  have m: "map2 fmul (replicate n_embd (Fin 0)) (ln_weight p) = replicate n_embd (Fin 0)"
    by simp
  show ?thesis
    unfolding layer_norm_def f m w(3) by (simp add: vadd_def zip_replicate rnd_0)
qed

lemma affinity_zero:
  assumes "fin_mat (head_key h)" "fin_mat (head_query h)" "i < T" "j < T"
  shows "affinity h (replicate T (replicate n (Fin 0))) ! i ! j = Fin 0"
proof -
  let ?x = "replicate T (replicate n (Fin 0))"
  have "dot (linear_nb (head_query h) (replicate n (Fin 0)))
          (linear_nb (head_key h) (replicate n (Fin 0))) = Fin 0"
    unfolding linear_nb_zero [OF assms(1)] linear_nb_zero [OF assms(2)]
    by (rule dot_zero_left) (rule is_fin_replicate)
  then show ?thesis
    using assms(3,4) affinity_nth [of i ?x j h] by (simp add: rnd_0)
qed

lemma attn_rows_zero_fin:
  assumes "fin_mat (head_key h)" "fin_mat (head_query h)" "T \<le> blocksize" "i < T"
  shows "list_all is_fin (attn_rows h (replicate T (replicate n (Fin 0))) ! i)"
proof -
  let ?x = "replicate T (replicate n (Fin 0))"
  let ?row = "map (\<lambda>j. if i < j then NInf else affinity h ?x ! i ! j) [0..<T]"
  have a: "affinity h ?x ! i ! j = Fin 0" if "j < T" for j
    using assms(1,2,4) that by (rule affinity_zero)
  have r1: "list_all fin_or_ninf ?row"
    using a by (simp add: list_all_length fin_or_ninf_def)
  have "?row ! i = Fin 0" using assms(4) a by simp
  then have r2: "Fin 0 \<in> set ?row"
    using assms(4) by (metis length_map length_upt minus_nat.diff_0 nth_mem)
  have r3: "real (length ?row) \<le> max_float"
    using assms(3) by (simp add: blocksize_le_max_float)
  from softmax_fin [OF r1 r2 r3] obtain ws where ws: "softmax ?row = map Fin ws" by blast
  have "attn_rows h ?x ! i = softmax ?row"
    using assms(4) by (simp add: attn_rows_def cong: if_cong)
  with ws show ?thesis by (simp add: list_all_iff)
qed

lemma head_pure_zero:
  assumes "fin_mat (head_key h)" "fin_mat (head_query h)" "fin_mat (head_value h)"
    and "T \<le> blocksize"
  shows "head_pure h (replicate T (replicate n (Fin 0))) =
         replicate T (replicate (length (head_value h)) (Fin 0))"
proof (cases T)
  case 0
  then show ?thesis by (simp add: head_pure_def matmul_def attn_rows_def)
next
  case (Suc T')
  let ?x = "replicate T (replicate n (Fin 0))"
  let ?hs = "length (head_value h)"
  have V: "map (linear_nb (head_value h)) ?x = replicate T (replicate ?hs (Fin 0))"
    by (simp add: linear_nb_zero [OF assms(3)])
  have nc: "ncols (replicate T (replicate ?hs (Fin 0))) = ?hs"
    using Suc by (simp add: ncols_def)
  have row: "map (\<lambda>c. dot u (map (\<lambda>r. r ! c) (replicate T (replicate ?hs (Fin 0))))) [0..<?hs] =
             replicate ?hs (Fin 0)"
    if "list_all is_fin u" for u
    using that by (intro nth_equalityI) (simp_all add: dot_zero_right)
  show ?thesis
  proof (rule nth_equalityI)
    show "length (head_pure h ?x) = length (replicate T (replicate ?hs (Fin 0)))"
      by (simp add: length_head_pure)
  next
    fix i assume "i < length (head_pure h ?x)"
    then have i: "i < T" by (simp add: length_head_pure)
    have u: "list_all is_fin (attn_rows h ?x ! i)"
      using assms(1,2,4) i by (rule attn_rows_zero_fin)
    have "head_pure h ?x ! i =
          map (\<lambda>c. dot (attn_rows h ?x ! i) (map (\<lambda>r. r ! c) (replicate T (replicate ?hs (Fin 0)))))
            [0..<?hs]"
      unfolding head_pure_def V matmul_def nc using i by (simp add: length_attn_rows)
    with row [OF u] i show "head_pure h ?x ! i = replicate T (replicate ?hs (Fin 0)) ! i"
      by simp
  qed
qed

lemma is_fin_concat: "list_all (list_all is_fin) xs \<Longrightarrow> list_all is_fin (concat xs)"
  by (induction xs) simp_all

lemma mha_pure_zero:
  assumes "zero_block b" "T \<le> blocksize"
  shows "mha_pure (sa b) (replicate T (replicate n (Fin 0))) =
         replicate T (replicate n_embd (Fin 0))"
proof -
  let ?x = "replicate T (replicate n (Fin 0))"
  from assms(1) have p: "proj (sa b) = linear_ex n_embd n_embd" by (simp add: zero_block_def)
  have hp: "head_pure h ?x = replicate T (replicate (length (head_value h)) (Fin 0))"
    if "h \<in> set (heads (sa b))" for h
    using that assms by (intro head_pure_zero) (simp_all add: zero_block_def list_all_iff)
  have "linear_fw (proj (sa b)) (concat (map (\<lambda>h. head_pure h ?x ! t) (heads (sa b)))) =
        replicate n_embd (Fin 0)" if "t < T" for t
  proof -
    have "list_all (list_all is_fin) (map (\<lambda>h. head_pure h ?x ! t) (heads (sa b)))"
      using hp that by (simp add: list_all_iff)
    then have "list_all is_fin (concat (map (\<lambda>h. head_pure h ?x ! t) (heads (sa b))))"
      by (rule is_fin_concat)
    then show ?thesis unfolding p by (rule linear_ex_fin)
  qed
  then show ?thesis
    by (intro nth_equalityI) (simp_all add: mha_pure_def)
qed

lemma madd_zero:
  "madd (replicate T (replicate n (Fin 0))) (replicate T (replicate n (Fin 0))) =
   replicate T (replicate n (Fin 0))"
  by (simp add: madd_def vadd_def zip_replicate rnd_0)

lemma relu_zero: "map relu (replicate n (Fin 0)) = replicate n (Fin 0)"
  by (simp add: relu_def)

lemma block_pure_zero:
  assumes "zero_block b" "T \<le> blocksize"
  shows "block_pure b (replicate T (replicate n_embd (Fin 0))) =
         replicate T (replicate n_embd (Fin 0))"
proof -
  let ?z = "replicate T (replicate n_embd (Fin 0))"
  from assms(1) have l: "zero_ln (ln1 b)" "zero_ln (ln2 b)"
    and f: "net0 (ffwd b) = linear_ex n_embd (4 * n_embd)"
           "net2 (ffwd b) = linear_ex (4 * n_embd) n_embd"
    by (simp_all add: zero_block_def)
  have n1: "map (layer_norm (ln1 b)) ?z = ?z" by (simp add: layer_norm_zero [OF l(1)])
  have n2: "map (layer_norm (ln2 b)) ?z = ?z" by (simp add: layer_norm_zero [OF l(2)])
  have a: "mha_pure (sa b) ?z = ?z" using assms by (rule mha_pure_zero)
  have ff: "ffwd_forward (ffwd b) ?z = ?z"
    by (simp add: ffwd_forward_def f linear_ex_fin is_fin_replicate relu_def)
  show ?thesis
    unfolding block_pure_def Let_def n1 a madd_zero n2 ff ..
qed

lemma seq_pure_zero:
  assumes "list_all zero_block bs" "T \<le> blocksize"
  shows "seq_pure bs (replicate T (replicate n_embd (Fin 0))) =
         replicate T (replicate n_embd (Fin 0))"
  using assms by (induction bs) (simp_all add: block_pure_zero)

lemma embed_zero:
  assumes "list_all (\<lambda>i. token_embedding_table m ! nat i = replicate n_embd (Fin 0)) r"
    and "position_embedding_table m = replicate blocksize (replicate n_embd (Fin 0))"
    and "length r = T" "T \<le> blocksize"
  shows "embed m T r = replicate T (replicate n_embd (Fin 0))"
proof -
  have "list_all (\<lambda>v. v = replicate n_embd (Fin 0)) (map (\<lambda>i. token_embedding_table m ! nat i) r)"
    using assms(1) by (simp add: list_all_iff)
  from all_zero_replicate [OF this] assms(3)
  have t: "map (\<lambda>i. token_embedding_table m ! nat i) r = replicate T (replicate n_embd (Fin 0))"
    by simp
  have p: "take T (position_embedding_table m) = replicate T (replicate n_embd (Fin 0))"
    using assms(4) by (simp add: assms(2) min.absorb2)
  show ?thesis unfolding embed_def t p by (rule madd_zero)
qed

lemma logits_seq_zero:
  assumes "seq_pure (blocks m) (embed m T r) = replicate T (replicate n_embd (Fin 0))"
    and "zero_ln (ln_f m)" "lm_head m = linear_ex n_embd V"
  shows "logits_seq m T r = replicate T (replicate V (Fin 0))"
  unfolding logits_seq_def assms(1,3)
  by (simp add: layer_norm_zero [OF assms(2)] linear_ex_fin is_fin_replicate)

lemma zero_ln_ex: "zero_ln layernorm_ex"
  by (simp add: zero_ln_def layernorm_ex_def list_all_iff)

lemma fin_mat_replicate: "fin_mat (replicate n (replicate k (Fin a)))"
  by (simp add: fin_mat_def list_all_iff)

lemma zero_block_ex: "zero_block block_ex"
  by (simp add: zero_block_def block_ex_def zero_ln_ex head_ex_def fin_mat_replicate
      list_all_iff)

lemma logits_seq_ex:
  assumes "length r = T" "T \<le> blocksize" "list_all (\<lambda>i. 0 \<le> i \<and> i < 2) r"
  shows "logits_seq model_ex T r = replicate T (replicate 2 (Fin 0))"
proof -
  have tok: "list_all (\<lambda>i. token_embedding_table model_ex ! nat i = replicate n_embd (Fin 0)) r"
    unfolding list_all_iff
  proof
    fix i assume "i \<in> set r"
    with assms(3) have "nat i < 2" by (auto simp: list_all_iff)
    then show "token_embedding_table model_ex ! nat i = replicate n_embd (Fin 0)"
      by (simp add: model_ex_def)
  qed
  have pos: "position_embedding_table model_ex = replicate blocksize (replicate n_embd (Fin 0))"
    by (simp add: model_ex_def)
  have e: "embed model_ex T r = replicate T (replicate n_embd (Fin 0))"
    using tok pos assms(1,2) by (rule embed_zero)
  have "list_all zero_block (blocks model_ex)"
    by (simp add: model_ex_def list_all_iff zero_block_ex)
  then have s: "seq_pure (blocks model_ex) (embed model_ex T r) =
                replicate T (replicate n_embd (Fin 0))"
    unfolding e using assms(2) by (rule seq_pure_zero)
  show ?thesis
    using s by (rule logits_seq_zero) (simp_all add: model_ex_def zero_ln_ex)
qed

section \<open>Generation of tokens\<close>

lemma sum_list_take_nonneg: "list_all (\<lambda>a. 0 \<le> (a::real)) p \<Longrightarrow> 0 \<le> sum_list (take j p)"
  by (rule sum_list_nonneg_real) (auto simp: list_all_iff dest: in_set_takeD)

lemma pick_drawn:
  "list_all (\<lambda>a. 0 \<le> a) p \<Longrightarrow> 0 \<le> u \<Longrightarrow> u < sum_list p \<Longrightarrow> drawn p u (pick p u)"
proof (induction p u rule: pick.induct)
  case (1 u)
  then show ?case by simp
next
  case (2 p u)
  then show ?case by (simp add: drawn_def)
next
  case (3 p q ps u)
  show ?case
  proof (cases "u < p")
    case True
    with 3 show ?thesis by (simp add: drawn_def)
  next
    case False
    from 3(2) have nn: "list_all (\<lambda>a. 0 \<le> a) (q # ps)" by simp
    from False 3(3,4) have "0 \<le> u - p" "u - p < sum_list (q # ps)" by simp_all
    from 3(1) [OF False nn this] have "drawn (q # ps) (u - p) (pick (q # ps) (u - p))" .
    then show ?thesis using False by (simp add: drawn_def)
  qed
qed

lemma pick_less: "p \<noteq> [] \<Longrightarrow> pick p u < length p"
  by (induction p u rule: pick.induct) simp_all

lemma multinomial_ok:
  assumes "p = map Fin ws" "ws \<noteq> []" "list_all (\<lambda>w. 0 \<le> w \<and> w \<le> 1) ws" "sum_list ws = 1"
  shows "multinomial p u = Inr (pick (map fin_val p) u)" "map fin_val p = ws"
proof -
  show w: "map fin_val p = ws" by (simp add: assms(1) comp_def)
  have a: "list_all (\<lambda>x. is_fin x \<and> 0 \<le> fin_val x) p"
    using assms(3) by (simp add: assms(1) list_all_iff)
  have "p \<noteq> []" using assms(2) by (simp add: assms(1))
  then show "multinomial p u = Inr (pick (map fin_val p) u)"
    unfolding multinomial_def Let_def w using a assms(4) by simp
qed

lemma crop_batch:
  assumes "is_batch B T idx"
  shows "is_batch B (min T blocksize) (map (\<lambda>r. drop (length r - blocksize) r) idx)"
  using assms by (auto simp: is_batch_def list_all_iff)

lemma crop_valid:
  assumes "valid_ids m idx"
  shows "valid_ids m (map (\<lambda>r. drop (length r - blocksize) r) idx)"
  using assms by (auto simp: valid_ids_def list_all_iff dest: in_set_dropD)

lemma vocab_pos:
  assumes "is_batch B T idx" "0 < B" "0 < T" "valid_ids m idx"
  shows "0 < vocab m"
proof -
  from assms(1,2) obtain r where r: "r \<in> set idx" by (cases idx) (auto simp: is_batch_def)
  with assms(1,3) obtain i where "i \<in> set r" by (cases r) (auto simp: is_batch_def list_all_iff)
  with r assms(4) have "0 \<le> i \<and> i < int (vocab m)" by (auto simp: valid_ids_def list_all_iff)
  then show ?thesis by simp
qed

lemma softmax_finite_row:
  assumes "list_all is_fin r" "r \<noteq> []" "real (length r) \<le> max_float"
  shows "\<exists>ws. softmax r = map Fin ws \<and> length ws = length r \<and>
           list_all (\<lambda>w. 0 \<le> w \<and> w \<le> 1) ws \<and> sum_list ws = 1"
proof -
  have r1: "list_all fin_or_ninf r" using assms(1) by (simp add: list_all_iff fin_or_ninf_def)
  from assms(2) obtain x where "x \<in> set r" by (cases r) auto
  with assms(1) obtain a0 where "Fin a0 \<in> set r" by (auto simp: list_all_iff is_fin_conv)
  from softmax_fin [OF r1 this assms(3)] show ?thesis by blast
qed

lemma generate_step_ok:
  assumes wf: "wf_model m" and b: "is_batch B T idx" "0 < B" and T: "0 < T"
    and v: "valid_ids m idx"
    and fl: "finite_logits m" and V: "real (vocab m) \<le> max_float"
    and tp: "\<forall>k. 0 \<le> tape k \<and> tape k < 1"
  shows "\<exists>nxt. generate_step m tape k idx = Inr (map2 (\<lambda>r t. r @ [t]) idx nxt) \<and>
           iteration_spec m tape k idx nxt \<and> length nxt = B \<and>
           list_all (\<lambda>t. 0 \<le> t \<and> t < int (vocab m)) nxt"
proof -
  let ?c = "map (\<lambda>r. drop (length r - blocksize) r) idx"
  let ?T = "min T blocksize"
  have T': "0 < ?T" "?T \<le> blocksize" using T by (simp_all add: blocksize_def)
  note cb = crop_batch [OF b(1)] and cv = crop_valid [OF v]
  note sh = logits_of_shape [OF wf cb b(2) T'(2) cv]
  let ?L = "map (logits_seq m ?T) ?c"
  have fw: "forward m ?c None = Inr (T3 ?L, None)" using sh(1) by (simp add: forward_None)
  have lB: "length idx = B" "length ?L = B" using b(1) by (simp_all add: is_batch_def)
  have fin: "list_all (list_all (list_all is_fin)) ?L"
    using fl cb b(2) T'(2) cv sh(1) unfolding finite_logits_def by blast
  have rows: "l \<noteq> []" if "l \<in> set ?L" for l
    using that sh(3) T'(1) by (auto simp: list_all_iff)
  have lastV: "length (last l) = vocab m" if "l \<in> set ?L" for l
    using that sh(3) rows [OF that] by (auto simp: list_all_iff)
  have lastF: "list_all is_fin (last l)" if "l \<in> set ?L" for l
  proof -
    from that fin have "list_all (list_all is_fin) l" unfolding list_all_iff by blast
    moreover have "last l \<in> set l" using rows [OF that] by (rule last_in_set)
    ultimately show ?thesis unfolding list_all_iff by blast
  qed
  have Vp: "0 < vocab m" using b T v by (rule vocab_pos)
  have sm: "\<exists>ws. softmax (last l) = map Fin ws \<and> length ws = vocab m \<and>
              list_all (\<lambda>w. 0 \<le> w \<and> w \<le> 1) ws \<and> sum_list ws = 1"
    if "l \<in> set ?L" for l
  proof -
    have "last l \<noteq> []" using lastV [OF that] Vp by auto
    from softmax_finite_row [OF lastF [OF that] this] V lastV [OF that] show ?thesis by simp
  qed
  have ls: "mapM last_step ?L = Inr (map last ?L)"
    by (rule mapM_all_Inr) (simp add: last_step_def rows)
  let ?probs = "map softmax (map last ?L)"
  let ?g = "\<lambda>(c, p). pick (map fin_val p) (tape (k + c))"
  have mn: "mapM (\<lambda>(c, p). multinomial p (tape (k + c))) (enumerate 0 ?probs) =
            Inr (map ?g (enumerate 0 ?probs))"
  proof (rule mapM_all_Inr)
    fix x assume x: "x \<in> set (enumerate 0 ?probs)"
    obtain c p where cp: "x = (c, p)" by (cases x)
    with x have c: "c < B" "p = softmax (last (?L ! c))"
      using lB by (auto simp: in_set_enumerate_eq)
    then have "?L ! c \<in> set ?L" using lB by (intro nth_mem) simp
    from sm [OF this] obtain ws where ws: "softmax (last (?L ! c)) = map Fin ws"
      "length ws = vocab m" "list_all (\<lambda>w. 0 \<le> w \<and> w \<le> 1) ws" "sum_list ws = 1"
      by blast
    have "ws \<noteq> []" using ws(2) Vp by auto
    from multinomial_ok(1) [OF _ this ws(3,4), of p] c(2) ws(1) cp
    show "(case x of (c, p) \<Rightarrow> multinomial p (tape (k + c))) =
          Inr (case x of (c, p) \<Rightarrow> pick (map fin_val p) (tape (k + c)))"
      by simp
  qed
  let ?nn = "map ?g (enumerate 0 ?probs)"
  let ?nxt = "map int ?nn"
  have ln: "length ?nn = B" using lB by simp
  have nn: "?nn ! c = pick (map fin_val (softmax (last (?L ! c)))) (tape (k + c))" if "c < B" for c
    using that lB by (simp add: nth_enumerate_eq)
  have z: "map2 (\<lambda>r t. r @ [int t]) idx ?nn = map2 (\<lambda>r t. r @ [t]) idx ?nxt"
    by (simp add: zip_map2 case_prod_unfold)
  have step: "generate_step m tape k idx = Inr (map2 (\<lambda>r t. r @ [t]) idx ?nxt)"
    unfolding generate_step_def Let_def fw by (simp add: ls mn z del: map_map)
  have crop: "list_all (\<lambda>r. length (drop (length r - blocksize) r) \<le> blocksize) idx"
    by (auto simp: list_all_iff)
  have each: "\<exists>ws. softmax (last (?L ! c)) = map Fin ws \<and> 0 \<le> ?nxt ! c \<and>
                 drawn ws (tape (k + c)) (nat (?nxt ! c)) \<and> ?nxt ! c < int (vocab m)"
    if c: "c < B" for c
  proof -
    from c have "?L ! c \<in> set ?L" using lB by (intro nth_mem) simp
    from sm [OF this] obtain ws where ws: "softmax (last (?L ! c)) = map Fin ws"
      "length ws = vocab m" "list_all (\<lambda>w. 0 \<le> w \<and> w \<le> 1) ws" "sum_list ws = 1"
      by blast
    have ne: "ws \<noteq> []" using ws(2) Vp by auto
    have fv: "map fin_val (softmax (last (?L ! c))) = ws"
      using ws(1) by (simp add: comp_def)
    have n: "?nxt ! c = int (pick ws (tape (k + c)))"
      using c ln nn [OF c] fv by simp
    have nng: "list_all (\<lambda>a. 0 \<le> a) ws" using ws(3) by (simp add: list_all_iff)
    from tp have "0 \<le> tape (k + c)" "tape (k + c) < sum_list ws" by (simp_all add: ws(4))
    with nng have d: "drawn ws (tape (k + c)) (pick ws (tape (k + c)))" by (rule pick_drawn)
    have "pick ws (tape (k + c)) < vocab m" using pick_less [OF ne] ws(2) by simp
    with ws(1) n d show ?thesis by (intro exI [of _ ws]) simp
  qed
  have spec: "iteration_spec m tape k idx ?nxt"
    unfolding iteration_spec_def
  proof (intro exI [of _ ?L] conjI allI impI)
    show "forward m ?c None = Inr (T3 ?L, None)" by (rule fw)
    show "list_all (\<lambda>r. length (drop (length r - blocksize) r) \<le> blocksize) idx" by (rule crop)
    show "length ?nxt = length idx" using lB by simp
  next
    fix c assume "c < length idx"
    then have "c < B" using lB by simp
    from each [OF this]
    show "\<exists>ws. softmax (last (?L ! c)) = map Fin ws \<and> 0 \<le> ?nxt ! c \<and>
                 drawn ws (tape (k + c)) (nat (?nxt ! c))"
      by blast
  qed
  have "list_all (\<lambda>t. 0 \<le> t \<and> t < int (vocab m)) ?nxt"
    unfolding list_all_length
  proof (intro allI impI)
    fix c assume "c < length ?nxt"
    then have "c < B" using lB by simp
    from each [OF this] show "0 \<le> ?nxt ! c \<and> ?nxt ! c < int (vocab m)" by blast
  qed
  moreover have "length ?nxt = B" using lB by simp
  ultimately show ?thesis using step spec by blast
qed

lemma append_batch:
  assumes "is_batch B T idx" "length nxt = B"
  shows "is_batch B (Suc T) (map2 (\<lambda>r t. r @ [t]) idx nxt)"
    and "map (take T) (map2 (\<lambda>r t. r @ [t]) idx nxt) = idx"
    and "map (\<lambda>r. r ! T) (map2 (\<lambda>r t. r @ [t]) idx nxt) = nxt"
proof -
  have l: "length idx = B" "\<And>c. c < B \<Longrightarrow> length (idx ! c) = T"
    using assms(1) by (simp_all add: is_batch_def list_all_length)
  show "is_batch B (Suc T) (map2 (\<lambda>r t. r @ [t]) idx nxt)"
    using l assms(2) by (simp add: is_batch_def list_all_length)
  show "map (take T) (map2 (\<lambda>r t. r @ [t]) idx nxt) = idx"
    using l assms(2) by (intro nth_equalityI) simp_all
  show "map (\<lambda>r. r ! T) (map2 (\<lambda>r t. r @ [t]) idx nxt) = nxt"
    using l assms(2) by (intro nth_equalityI) (simp_all add: nth_append)
qed

lemma append_valid:
  assumes "valid_ids m idx" "list_all (\<lambda>t. 0 \<le> t \<and> t < int (vocab m)) nxt"
  shows "valid_ids m (map2 (\<lambda>r t. r @ [t]) idx nxt)"
  using assms
  by (auto simp: valid_ids_def list_all_iff dest: set_zip_leftD set_zip_rightD)

lemma generate_loop_ok:
  assumes wf: "wf_model m" and B: "0 < B"
    and fl: "finite_logits m" and V: "real (vocab m) \<le> max_float"
    and tp: "\<forall>k. 0 \<le> tape k \<and> tape k < 1"
  shows "is_batch B T idx \<Longrightarrow> 0 < T \<Longrightarrow> valid_ids m idx \<Longrightarrow>
         \<exists>out. generate_loop m tape k idx n = Inr out \<and> is_batch B (T + n) out \<and>
           valid_ids m out \<and> map (take T) out = idx \<and>
           (\<forall>j<n. iteration_spec m tape (k + j * B) (map (take (T + j)) out)
                     (map (\<lambda>r. r ! (T + j)) out))"
proof (induction n arbitrary: idx T k)
  case 0
  then have "map (take T) idx = idx"
    by (intro map_idI) (simp add: is_batch_def list_all_iff)
  with 0 show ?case by simp
next
  case (Suc n)
  from generate_step_ok [OF wf Suc.prems(1) B Suc.prems(2,3) fl V tp, of k] obtain nxt where
    st: "generate_step m tape k idx = Inr (map2 (\<lambda>r t. r @ [t]) idx nxt)" and
    sp: "iteration_spec m tape k idx nxt" and
    ln: "length nxt = B" and
    vn: "list_all (\<lambda>t. 0 \<le> t \<and> t < int (vocab m)) nxt"
    by blast
  let ?idx' = "map2 (\<lambda>r t. r @ [t]) idx nxt"
  note ab = append_batch [OF Suc.prems(1) ln]
  have v': "valid_ids m ?idx'" using Suc.prems(3) vn by (rule append_valid)
  have lB: "length idx = B" using Suc.prems(1) by (simp add: is_batch_def)
  from Suc.IH [OF ab(1) _ v', of "k + B"] obtain out where
    out: "generate_loop m tape (k + B) ?idx' n = Inr out"
      "is_batch B (Suc T + n) out" "valid_ids m out" "map (take (Suc T)) out = ?idx'"
      and it: "\<forall>j<n. iteration_spec m tape (k + B + j * B) (map (take (Suc T + j)) out)
                     (map (\<lambda>r. r ! (Suc T + j)) out)"
    by auto
  have g: "generate_loop m tape k idx (Suc n) = Inr out"
    using st out(1) lB by simp
  have "map (take T) (map (take (Suc T)) out) = map (take T) out"
    by (simp add: min.absorb1)
  with out(4) ab(2) have pre: "map (take T) out = idx" by simp
  have "map (\<lambda>r. r ! T) (map (take (Suc T)) out) = map (\<lambda>r. r ! T) out"
    by simp
  with out(4) ab(3) have tok: "map (\<lambda>r. r ! T) out = nxt" by simp
  have "iteration_spec m tape (k + j * B) (map (take (T + j)) out) (map (\<lambda>r. r ! (T + j)) out)"
    if "j < Suc n" for j
  proof (cases j)
    case 0
    with sp pre tok show ?thesis by simp
  next
    case (Suc j')
    with that it have "iteration_spec m tape (k + B + j' * B) (map (take (Suc T + j')) out)
                     (map (\<lambda>r. r ! (Suc T + j')) out)" by simp
    with Suc show ?thesis by (simp add: add.assoc)
  qed
  with g out(2,3) pre show ?case by auto
qed

lemma generate_empty_seed:
  "generate model_ex tape idx_empty 1 = Inl IndexError"
proof -
  have b: "is_batch 1 0 idx_empty" and v: "valid_ids model_ex idx_empty"
    by (simp_all add: is_batch_def valid_ids_def idx_empty_def)
  have "(0::nat) < 1" "(0::nat) \<le> blocksize" by simp_all
  note sh = logits_of_shape [OF wf_model_ex b this v]
  let ?L = "map (logits_seq model_ex 0) idx_empty"
  have "length ?L = 1" "list_all (\<lambda>r. length r = 0) ?L"
    using sh(2,3) by (simp_all add: list_all_iff)
  then have "?L = [[]]" by (cases ?L) simp_all
  with sh(1) have "forward model_ex idx_empty None = Inr (T3 [[]], None)"
    by (simp add: forward_None)
  then have "generate_step model_ex tape 0 idx_empty = Inl IndexError"
    by (simp add: generate_step_def idx_empty_def last_step_def)
  then show ?thesis
    by (simp add: generate_def)
qed

lemma finite_logits_ex: "finite_logits model_ex"
  unfolding finite_logits_def
proof (intro allI impI)
  fix B T idx L
  assume a: "is_batch B T idx \<and> 0 < B \<and> T \<le> blocksize \<and> valid_ids model_ex idx \<and>
             logits_of model_ex idx = Inr L"
  then have b: "is_batch B T idx" "0 < B" "T \<le> blocksize" "valid_ids model_ex idx"
    and L: "logits_of model_ex idx = Inr L" by simp_all
  from logits_of_ok [OF wf_model_ex b] L have L': "L = map (logits_seq model_ex T) idx" by simp
  have "logits_seq model_ex T r = replicate T (replicate 2 (Fin 0))" if "r \<in> set idx" for r
  proof -
    from that b(1) have "length r = T" by (simp add: is_batch_def list_all_iff)
    moreover from that b(4) have "list_all (\<lambda>i. 0 \<le> i \<and> i < 2) r"
      by (simp add: valid_ids_def vocab_ex list_all_iff)
    ultimately show ?thesis using b(3) by (intro logits_seq_ex)
  qed
  then show "list_all (list_all (list_all is_fin)) L"
    unfolding L' by (simp add: list_all_iff)
qed

text \<open>
  Claim C4 (generation), as amended. For a model whose logits on valid inputs are
  finite, a tape of random numbers of \<open>[0, 1)\<close>, and a batch of valid seed sequences of
  length \<open>T \<ge> 1\<close> (or any \<open>T\<close> when no token is requested), \<open>generate\<close> returns sequences of
  length \<open>T\<close> plus the requested count, whose first \<open>T\<close> entries are the seed; the token
  at position \<open>T + j\<close> is what one iteration appends to the first \<open>T + j\<close> tokens, a draw
  from the softmax of the last-position logits of the forward pass on their last at most
  \<open>blocksize\<close> tokens.
\<close>

theorem generate_length:
  assumes "wf_model m" "is_batch B T idx" "0 < B" "valid_ids m idx" "0 < T \<or> n \<le> 0"
    and "finite_logits m" "real (vocab m) \<le> max_float" "\<forall>k. 0 \<le> tape k \<and> tape k < 1"
  shows "\<exists>out. generate m tape idx n = Inr out \<and> is_batch B (T + nat n) out \<and>
           map (take T) out = idx \<and> valid_ids m out \<and>
           (\<forall>j<nat n. iteration_spec m tape (j * B) (map (take (T + j)) out)
                         (map (\<lambda>r. r ! (T + j)) out))"
proof (cases "0 < T")
  case True
  from generate_loop_ok [OF assms(1,3,6,7,8,2) True assms(4), of 0 "nat n"]
  show ?thesis by (auto simp: generate_def)
next
  case False
  with assms(5) have n: "nat n = 0" by simp
  have "map (take T) idx = idx"
    using assms(2) by (intro map_idI) (simp add: is_batch_def list_all_iff)
  with n assms(2,4) show ?thesis by (simp add: generate_def)
qed

theorem generate_length_witness:
  "wf_model model_ex \<and> is_batch 1 2 idx_ex \<and> valid_ids model_ex idx_ex \<and>
   finite_logits model_ex \<and> real (vocab model_ex) \<le> max_float \<and>
   (\<exists>out. generate model_ex (\<lambda>k. 0) idx_ex 3 = Inr out \<and> is_batch 1 5 out \<and>
           map (take 2) out = idx_ex \<and> valid_ids model_ex out \<and>
           iteration_spec model_ex (\<lambda>k. 0) 0 (map (take 2) out) (map (\<lambda>r. r ! 2) out))"
proof -
  have h0: "(0::nat) < 1" and h1: "(0::nat) < 2 \<or> (3::int) \<le> 0" by simp_all
  have h2: "real (vocab model_ex) \<le> max_float" by (simp add: vocab_ex max_float_def)
  have h3: "\<forall>k::nat. (0::real) \<le> 0 \<and> (0::real) < 1" by simp
  from generate_length [OF wf_model_ex ex_hyps(1) h0 ex_hyps(2) h1 finite_logits_ex h2 h3]
  obtain out where o: "generate model_ex (\<lambda>k. 0) idx_ex 3 = Inr out \<and>
    is_batch 1 (2 + nat 3) out \<and> map (take 2) out = idx_ex \<and> valid_ids model_ex out \<and>
    (\<forall>j<nat 3. iteration_spec model_ex (\<lambda>k. 0) (j * 1) (map (take (2 + j)) out)
                         (map (\<lambda>r. r ! (2 + j)) out))" ..
  then have out: "generate model_ex (\<lambda>k. 0) idx_ex 3 = Inr out"
    "is_batch 1 (2 + nat 3) out" "map (take 2) out = idx_ex" "valid_ids model_ex out"
    by simp_all
  from o have "\<forall>j<nat 3. iteration_spec model_ex (\<lambda>k. 0) (j * 1) (map (take (2 + j)) out)
                         (map (\<lambda>r. r ! (2 + j)) out)" by (elim conjE)
  moreover have "0 < nat 3" by simp
  ultimately have "iteration_spec model_ex (\<lambda>k. 0) (0 * 1) (map (take (2 + 0)) out)
                         (map (\<lambda>r. r ! (2 + 0)) out)"
    by (elim allE [of _ 0] impE)
  then have "iteration_spec model_ex (\<lambda>k. 0) 0 (map (take 2) out) (map (\<lambda>r. r ! 2) out)"
    by simp
  with out(1-4) have
    "\<exists>out. generate model_ex (\<lambda>k. 0) idx_ex 3 = Inr out \<and> is_batch 1 5 out \<and>
           map (take 2) out = idx_ex \<and> valid_ids model_ex out \<and>
           iteration_spec model_ex (\<lambda>k. 0) 0 (map (take 2) out) (map (\<lambda>r. r ! 2) out)"
    by (intro exI [of _ out]) simp
  with wf_model_ex ex_hyps(1,2) finite_logits_ex h2 show ?thesis by (intro conjI)
qed

text \<open>The claim as stated fails on an empty seed: there is no last position to take the
  logits from, and the first iteration raises.\<close>

theorem generate_empty_seed_ex:
  "wf_model model_ex \<and> is_batch 1 0 idx_empty \<and> valid_ids model_ex idx_empty \<and>
   finite_logits model_ex \<and>
   generate model_ex (\<lambda>k. 0) idx_empty 1 = Inl IndexError"
proof -
  have "is_batch 1 0 idx_empty" and "valid_ids model_ex idx_empty"
    by (simp_all add: is_batch_def valid_ids_def idx_empty_def)
  with wf_model_ex finite_logits_ex generate_empty_seed [of "\<lambda>k. 0"] show ?thesis
    by (intro conjI)
qed

end
